theory Spec2Isabelle
  imports Complex_Main "HOL-Library.Multiset" "HOL-Library.Monad_Syntax"
begin

section \<open>Conventions of the embedding\<close>

text \<open>
  JavaScript numbers that carry coordinates, distances, fitness values and probabilities are
  modelled as \<^typ>\<open>real\<close> (rounding and \<open>NaN\<close> of IEEE doubles are not modelled; where the
  source can produce \<open>NaN\<close> from \<open>0 / 0\<close> the value is a \<^typ>\<open>real option\<close> with \<open>None\<close> for
  \<open>NaN\<close>, and the adaptive parameters, which divide by \<open>maxGenerations\<close>, are extended
  numbers). Array indices, city identifiers, counters and sizes are \<^typ>\<open>nat\<close>; a quantity
  that the source lets go negative is an \<^typ>\<open>int\<close>. The value \<open>undefined\<close> that an
  out-of-range array read returns is \<open>None\<close> of an option type at the places where the source
  can reach it, and a thrown \<open>TypeError\<close> (a property read on \<open>undefined\<close>) is \<open>Inl TypeError\<close>.
  A loop that can run forever returns \<open>None\<close> of an outer option type.

  A distance matrix is read as \<open>dm ! a ! b\<close>. The classes build their matrix with
  \<open>buildDistanceMatrix\<close>, one row and one column for each city, so the reads for the cities
  of a tour are in range; what the source does with a matrix that lacks the row or the
  column of a city (a thrown \<open>TypeError\<close>, or \<open>undefined\<close> in the sum) is not modelled.

  Record fields keep the source's names except where the name is needed for variables or
  is used by two records: \<open>City.x\<close> is \<open>city_x\<close>, \<open>AlgorithmParams.beta\<close> is \<open>betaParam\<close>, the
  private fields of a class carry the class as a prefix (\<open>jg_\<close> for \<open>GAJGHO\<close>, \<open>sga_\<close> for
  \<open>StandardGA\<close>, \<open>abc_\<close> for \<open>ABCTSP\<close>), and the fields of \<open>GenerationStats\<close> that clash with
  \<open>Population\<close> carry \<open>stat_\<close>.
\<close>

datatype error = TypeError

subsection \<open>Numbers after a division by zero\<close>

text \<open>
  The adaptive parameters divide by \<open>maxGenerations\<close>. For a zero divisor JavaScript gives
  \<open>NaN\<close> (\<open>0 / 0\<close>) or \<open>Infinity\<close>, and the arithmetic and the comparisons that follow are
  those of the extended numbers: \<open>d * Infinity\<close> has the sign of \<open>d\<close> and is \<open>NaN\<close> for
  \<open>d = 0\<close>, every operation on \<open>NaN\<close> gives \<open>NaN\<close>, and \<open>r <= x\<close> is false for \<open>NaN\<close>.
  \<open>ratio\<close> is the quotient of two non-negative integers, \<open>timesFinite d x\<close> is \<open>d * x\<close>,
  \<open>subtractFrom a x\<close> is \<open>a - x\<close>, \<open>plusFinite x b\<close> is \<open>x + b\<close> and \<open>lessEq r x\<close> is \<open>r <= x\<close>,
  for finite \<open>d\<close>, \<open>a\<close>, \<open>b\<close> and \<open>r\<close>.
\<close>

datatype number = Finite real | PlusInfinity | MinusInfinity | NaN

definition ratio :: "nat \<Rightarrow> nat \<Rightarrow> number" where
  "ratio a b =
     (if b \<noteq> 0 then Finite (real a / real b) else if a = 0 then NaN else PlusInfinity)"

definition timesFinite :: "real \<Rightarrow> number \<Rightarrow> number" where
  "timesFinite d x =
     (case x of
        Finite y \<Rightarrow> Finite (d * y)
      | PlusInfinity \<Rightarrow> (if 0 < d then PlusInfinity else if d < 0 then MinusInfinity else NaN)
      | MinusInfinity \<Rightarrow> (if 0 < d then MinusInfinity else if d < 0 then PlusInfinity else NaN)
      | NaN \<Rightarrow> NaN)"

definition subtractFrom :: "real \<Rightarrow> number \<Rightarrow> number" where
  "subtractFrom a x =
     (case x of
        Finite y \<Rightarrow> Finite (a - y)
      | PlusInfinity \<Rightarrow> MinusInfinity
      | MinusInfinity \<Rightarrow> PlusInfinity
      | NaN \<Rightarrow> NaN)"

definition plusFinite :: "number \<Rightarrow> real \<Rightarrow> number" where
  "plusFinite x b = (case x of Finite y \<Rightarrow> Finite (y + b) | _ \<Rightarrow> x)"

definition lessEq :: "real \<Rightarrow> number \<Rightarrow> bool" where
  "lessEq r x =
     (case x of Finite y \<Rightarrow> r \<le> y | PlusInfinity \<Rightarrow> True | MinusInfinity \<Rightarrow> False
      | NaN \<Rightarrow> False)"

subsection \<open>The random source\<close>

text \<open>
  \<open>Math.random()\<close> is an explicit stream of draws: a call returns \<open>rs 0\<close> and leaves
  \<open>drop_rng 1 rs\<close>. The contract of \<open>Math.random\<close> is \<open>valid_rng\<close>: each draw is in \<open>[0, 1)\<close>.
  \<open>Math.floor(Math.random() * m)\<close> on a draw \<open>r\<close> is \<open>randomIndex r m\<close>.
\<close>

type_synonym rng = "nat \<Rightarrow> real"

definition drop_rng :: "nat \<Rightarrow> rng \<Rightarrow> rng" where
  "drop_rng k rs = (\<lambda>i. rs (i + k))"

definition valid_rng :: "rng \<Rightarrow> bool" where
  "valid_rng rs = (\<forall>k. 0 \<le> rs k \<and> rs k < 1)"

definition randomIndex :: "real \<Rightarrow> nat \<Rightarrow> nat" where
  "randomIndex r m = nat \<lfloor>r * real m\<rfloor>"

subsection \<open>Array primitives\<close>

text \<open>\<open>[a[i], a[j]] = [a[j], a[i]]\<close>: both reads happen before both writes.\<close>

definition swap :: "'a list \<Rightarrow> nat \<Rightarrow> nat \<Rightarrow> 'a list" where
  "swap xs i j = xs[i := xs ! j, j := xs ! i]"

text \<open>\<open>a[i]\<close> where the source can read out of range: \<open>None\<close> is \<open>undefined\<close>.\<close>

definition nth_opt :: "'a list \<Rightarrow> nat \<Rightarrow> 'a option" where
  "nth_opt xs i = (if i < length xs then Some (xs ! i) else None)"

text \<open>
  \<open>Array.prototype.slice\<close> on integer arguments: a negative index counts from the end, and
  every index is clamped to \<open>[0, length]\<close>.
\<close>

definition relIndex :: "nat \<Rightarrow> int \<Rightarrow> nat" where
  "relIndex len i = (if i < 0 then nat (max (int len + i) 0) else min (nat i) len)"

definition slice :: "'a list \<Rightarrow> int \<Rightarrow> int \<Rightarrow> 'a list" where
  "slice xs s e = (let k = relIndex (length xs) s; f = relIndex (length xs) e
                   in take (f - k) (drop k xs))"

definition sliceFrom :: "'a list \<Rightarrow> int \<Rightarrow> 'a list" where
  "sliceFrom xs s = drop (relIndex (length xs) s) xs"

text \<open>\<open>a.indexOf(v)\<close>: the first index of \<open>v\<close>, or \<open>-1\<close>.\<close>

fun indexOf :: "'a list \<Rightarrow> 'a \<Rightarrow> int" where
  "indexOf [] a = - 1"
| "indexOf (b # bs) a =
     (if b = a then 0 else (let r = indexOf bs a in if r < 0 then - 1 else r + 1))"

section \<open>Data model (types/algorithm.ts)\<close>

record City =
  city_id :: nat
  city_x :: real
  city_y :: real

record Chromosome =
  genes :: "nat list"
  fitness :: real
  distance :: real

record AlgorithmParams =
  populationSize :: nat
  maxGenerations :: nat
  eliteCount :: nat
  PfitMax :: real
  PfitMin :: real
  PsMax :: real
  PsMin :: real
  betaParam :: real
  PJGParam :: real
  qParam :: int

text \<open>
  A \<open>Population\<close> snapshot. \<open>best\<close> and \<open>worst\<close> are \<open>None\<close> when the source reads them from an
  empty array (\<open>undefined\<close>); \<open>average\<close> and \<open>diversity\<close> are \<open>None\<close> when the source divides
  \<open>0\<close> by the length \<open>0\<close> (\<open>NaN\<close>).
\<close>

record Population =
  chromosomes :: "Chromosome list"
  generation :: nat
  best :: "Chromosome option"
  worst :: "Chromosome option"
  average :: "real option"
  diversity :: "real option"

record GenerationStats =
  stat_generation :: nat
  bestDistance :: real
  averageDistance :: real
  worstDistance :: real
  stat_diversity :: real
  elapsedTime :: real

text \<open>
  \<open>[...a].sort((a, b) => a.distance - b.distance)\<close>: the stable ascending sort by the
  \<open>distance\<close> field.
\<close>

definition sortByDistance :: "Chromosome list \<Rightarrow> Chromosome list" where
  "sortByDistance cs = sort_key distance cs"

section \<open>Distance utilities (utils/distance.ts)\<close>

definition calculateDistance :: "City \<Rightarrow> City \<Rightarrow> real" where
  "calculateDistance city1 city2 =
     (let dx = city_x city1 - city_x city2; dy = city_y city1 - city_y city2
      in sqrt (dx * dx + dy * dy))"

text \<open>The accumulation loop \<open>for i: total += f(i)\<close> from \<open>0\<close> is the sum of the list of terms.\<close>

definition calculateTotalDistance :: "nat list \<Rightarrow> City list \<Rightarrow> real" where
  "calculateTotalDistance g cs =
     (\<Sum>i\<leftarrow>[0 ..< length g].
        calculateDistance (cs ! (g ! i)) (cs ! (g ! ((i + 1) mod length g))))"

text \<open>\<open>matrix[i][j] = v\<close> on an array of rows.\<close>

definition setEntry :: "real list list \<Rightarrow> nat \<Rightarrow> nat \<Rightarrow> real \<Rightarrow> real list list" where
  "setEntry m i j v = m[i := (m ! i)[j := v]]"

text \<open>
  \<open>buildDistanceMatrix\<close>: an \<open>n\<close> by \<open>n\<close> array of zeros, then for every \<open>i < j\<close> the
  distance is computed once and stored at \<open>[i][j]\<close> and at \<open>[j][i]\<close>. \<open>buildRow\<close> is the
  inner loop over \<open>j\<close>.
\<close>

definition buildRow :: "City list \<Rightarrow> nat \<Rightarrow> real list list \<Rightarrow> real list list" where
  "buildRow cs i m =
     fold (\<lambda>j m. let dist = calculateDistance (cs ! i) (cs ! j)
                  in setEntry (setEntry m i j dist) j i dist)
          [i + 1 ..< length cs] m"

definition buildDistanceMatrix :: "City list \<Rightarrow> real list list" where
  "buildDistanceMatrix cs =
     (let n = length cs
      in fold (buildRow cs) [0 ..< n] (replicate n (replicate n 0)))"

definition calculateTotalDistanceWithMatrix :: "nat list \<Rightarrow> real list list \<Rightarrow> real" where
  "calculateTotalDistanceWithMatrix g dm =
     (\<Sum>i\<leftarrow>[0 ..< length g]. dm ! (g ! i) ! (g ! ((i + 1) mod length g)))"

definition createChromosome :: "nat list \<Rightarrow> City list \<Rightarrow> Chromosome" where
  "createChromosome g cs =
     (let d = calculateTotalDistance g cs in \<lparr>genes = g, fitness = d, distance = d\<rparr>)"

text \<open>
  Well-formedness of the inputs, used as hypotheses: a matrix with \<open>n\<close> rows of \<open>n\<close> entries,
  a symmetric one (the invariant of the distance matrix), and a tour that is a permutation
  of \<open>0..n-1\<close>.
\<close>

definition square :: "nat \<Rightarrow> real list list \<Rightarrow> bool" where
  "square n m = (length m = n \<and> (\<forall>i<n. length (m ! i) = n))"

definition symmetric :: "nat \<Rightarrow> real list list \<Rightarrow> bool" where
  "symmetric n m = (\<forall>i<n. \<forall>j<n. m ! i ! j = m ! j ! i)"

definition isPermutation :: "nat \<Rightarrow> nat list \<Rightarrow> bool" where
  "isPermutation n g = (mset g = mset [0 ..< n])"

section \<open>Population initialization (algorithms/initialization.ts)\<close>

text \<open>
  \<open>generateRandomChromosome\<close>: the identity tour \<open>[0, ..., cityCount - 1]\<close>, shuffled by
  the Fisher-Yates loop \<open>for (i = length - 1; i > 0; i--)\<close>, one draw per iteration.
  \<open>shuffleFrom i\<close> is the loop from index \<open>i\<close> downwards.
\<close>

fun shuffleFrom :: "nat \<Rightarrow> nat list \<Rightarrow> rng \<Rightarrow> nat list \<times> rng" where
  "shuffleFrom 0 g rs = (g, rs)"
| "shuffleFrom (Suc k) g rs =
     (let j = randomIndex (rs 0) (Suc k + 1)
      in shuffleFrom k (swap g (Suc k) j) (drop_rng 1 rs))"

definition generateRandomChromosome :: "nat \<Rightarrow> rng \<Rightarrow> nat list \<times> rng" where
  "generateRandomChromosome cityCount rs = shuffleFrom (cityCount - 1) [0 ..< cityCount] rs"

fun initializePopulation :: "City list \<Rightarrow> nat \<Rightarrow> rng \<Rightarrow> Chromosome list \<times> rng" where
  "initializePopulation cs 0 rs = ([], rs)"
| "initializePopulation cs (Suc k) rs =
     (let (g, rs1) = generateRandomChromosome (length cs) rs;
          chromosome = createChromosome g cs;
          (rest, rs2) = initializePopulation cs k rs1
      in (chromosome # rest, rs2))"

section \<open>Selection (algorithms/selection.ts)\<close>

definition calculatePfit :: "nat \<Rightarrow> nat \<Rightarrow> real \<Rightarrow> real \<Rightarrow> number" where
  "calculatePfit currentGen maxGen pfitMax pfitMin =
     subtractFrom pfitMax (timesFinite (pfitMax - pfitMin) (ratio currentGen maxGen))"

text \<open>
  The fitness map is keyed by \<open>genes.join(',')\<close>. The decimal rendering of a sequence of
  non-negative integers joined by commas determines the sequence, so the key is modelled
  by the gene sequence itself (\<open>srt\<close> is the source's \<open>sorted\<close>). \<open>sorted.forEach((chr, rank) => map.set(key, v))\<close> writes in
  rank order, a later write replacing an earlier one under the same key;
  \<open>map.get(key) || 0\<close> is \<open>0\<close> for a missing key and for the value \<open>0\<close>.
\<close>

definition rankMap :: "(nat \<Rightarrow> real) \<Rightarrow> Chromosome list \<Rightarrow> (nat list \<rightharpoonup> real)" where
  "rankMap f srt =
     fold (\<lambda>(chr, rank) m. m(genes chr \<mapsto> f rank)) (zip srt [0 ..< length srt]) Map.empty"

definition getOrZero :: "(nat list \<rightharpoonup> real) \<Rightarrow> nat list \<Rightarrow> real" where
  "getOrZero m key = (case m key of None \<Rightarrow> 0 | Some v \<Rightarrow> v)"

definition calculateLinearFitness :: "Chromosome list \<Rightarrow> real list" where
  "calculateLinearFitness population =
     (let NP = length population;
          srt = sortByDistance population;
          fitnessMap = rankMap (\<lambda>rank. (real NP - real rank) / real NP) srt
      in map (\<lambda>chr. getOrZero fitnessMap (genes chr)) population)"

definition calculateNonLinearFitness :: "Chromosome list \<Rightarrow> real \<Rightarrow> real list" where
  "calculateNonLinearFitness population b =
     (let srt = sortByDistance population;
          fitnessMap = rankMap (\<lambda>rank. b * (1 - b) ^ rank) srt
      in map (\<lambda>chr. getOrZero fitnessMap (genes chr)) population)"

text \<open>
  The wheel loop of \<open>rouletteWheelSelect\<close> over the indices still to visit: the index at
  which the running sum first reaches the spin, or \<open>None\<close> when the loop ends without a
  \<open>return\<close>.
\<close>

fun wheel :: "real list \<Rightarrow> real \<Rightarrow> nat list \<Rightarrow> real \<Rightarrow> nat option" where
  "wheel fitnessValues spin [] cumulative = None"
| "wheel fitnessValues spin (i # rest) cumulative =
     (let cumulative' = cumulative + fitnessValues ! i
      in if cumulative' \<ge> spin then Some i else wheel fitnessValues spin rest cumulative')"

text \<open>
  \<open>rouletteWheelSelect\<close> draws once, \<open>r\<close>. The result is \<open>None\<close> when the source returns
  \<open>undefined\<close> (a read from an empty population). The fitness values are those of the
  population, one per member.
\<close>

definition rouletteWheelSelect :: "Chromosome list \<Rightarrow> real list \<Rightarrow> real \<Rightarrow> Chromosome option" where
  "rouletteWheelSelect population fitnessValues r =
     (let totalFitness = sum_list fitnessValues
      in if totalFitness = 0 then nth_opt population (randomIndex r (length population))
         else (let spin = r * totalFitness
               in case wheel fitnessValues spin [0 ..< length population] 0 of
                    Some i \<Rightarrow> nth_opt population i
                  | None \<Rightarrow> (if population = [] then None else Some (last population))))"

definition rouletteSelection ::
  "Chromosome list \<Rightarrow> number \<Rightarrow> real \<Rightarrow> rng \<Rightarrow> Chromosome option \<times> rng" where
  "rouletteSelection population Pfit b rs =
     (let r = rs 0;
          fitnessValues = (if lessEq r Pfit then calculateLinearFitness population
                           else calculateNonLinearFitness population b)
      in (rouletteWheelSelect population fitnessValues (rs 1), drop_rng 2 rs))"

fun selectParents ::
  "Chromosome list \<Rightarrow> nat \<Rightarrow> number \<Rightarrow> real \<Rightarrow> rng \<Rightarrow> Chromosome option list \<times> rng" where
  "selectParents population 0 Pfit b rs = ([], rs)"
| "selectParents population (Suc k) Pfit b rs =
     (let (p, rs1) = rouletteSelection population Pfit b rs;
          (rest, rs2) = selectParents population k Pfit b rs1
      in (p # rest, rs2))"

section \<open>Bidirectional heuristic crossover (algorithms/crossover.ts)\<close>

datatype direction = clockwise | counterclockwise

text \<open>
  \<open>findNeighbors\<close>: the successor or the predecessor of the city in the tour, as a
  one-element array. The index arithmetic is on integers since \<open>indexOf\<close> can be \<open>-1\<close>;
  on the values that occur (\<open>pos + 1 \<ge> 0\<close>, and \<open>pos - 1 + n < 0\<close> only for \<open>n = 1\<close>, where
  the remainder is zero) the remainder \<open>%\<close> of JavaScript and \<open>mod\<close> agree. The reads are in
  range for a non-empty tour.
\<close>

definition findNeighbors :: "nat \<Rightarrow> Chromosome \<Rightarrow> direction \<Rightarrow> nat list" where
  "findNeighbors cityId chromosome dir =
     (let g = genes chromosome; n = int (length g); pos = indexOf g cityId
      in case dir of
           clockwise \<Rightarrow> [g ! nat ((pos + 1) mod n)]
         | counterclockwise \<Rightarrow> [g ! nat ((pos - 1 + n) mod n)])"

text \<open>
  \<open>findNearestCity\<close>: the loop state is the pair of \<open>nearestCityId\<close> and \<open>minDistance\<close>,
  started at the first candidate. The caller passes a non-empty array.
\<close>

definition findNearestCity :: "nat \<Rightarrow> nat list \<Rightarrow> real list list \<Rightarrow> nat" where
  "findNearestCity fromCityId candidateCityIds dm =
     fst (fold (\<lambda>cityId (nearestCityId, minDistance).
                  let dist = dm ! fromCityId ! cityId
                  in if dist < minDistance then (cityId, dist) else (nearestCityId, minDistance))
               candidateCityIds
               (candidateCityIds ! 0, dm ! fromCityId ! (candidateCityIds ! 0)))"

definition calculateDistanceWithMatrix :: "nat list \<Rightarrow> real list list \<Rightarrow> real" where
  "calculateDistanceWithMatrix g dm =
     (\<Sum>i\<leftarrow>[0 ..< length g]. dm ! (g ! i) ! (g ! ((i + 1) mod length g)))"

text \<open>
  The loop \<open>while (offspring.length < n)\<close> of the crossover. Each iteration either appends
  one city or leaves by \<open>break\<close>, so \<open>n - offspring.length\<close> decreases.
\<close>

function bhxLoop ::
  "nat \<Rightarrow> Chromosome \<Rightarrow> Chromosome \<Rightarrow> real list list \<Rightarrow> direction \<Rightarrow>
   nat list \<Rightarrow> nat set \<Rightarrow> nat \<Rightarrow> nat list" where
  "bhxLoop n parent1 parent2 dm dir offspring visited currentCity =
     (if length offspring < n then
        (let neighbors1 = findNeighbors currentCity parent1 dir;
             neighbors2 = findNeighbors currentCity parent2 dir;
             allNeighbors = neighbors1 @ neighbors2;
             unvisitedNeighbors = filter (\<lambda>city. city \<notin> visited) allNeighbors
         in if unvisitedNeighbors = [] then
              (let remainingCities = filter (\<lambda>city. city \<notin> visited) [0 ..< n]
               in if remainingCities = [] then offspring
                  else (let nextCity = findNearestCity currentCity remainingCities dm
                        in bhxLoop n parent1 parent2 dm dir
                             (offspring @ [nextCity]) (insert nextCity visited) nextCity))
            else (let nextCity = findNearestCity currentCity unvisitedNeighbors dm
                  in bhxLoop n parent1 parent2 dm dir
                       (offspring @ [nextCity]) (insert nextCity visited) nextCity))
      else offspring)"
  by pat_completeness auto
termination
  by (relation "measure (\<lambda>(n, p1, p2, dm, dir, offspring, visited, c). n - length offspring)") auto

declare bhxLoop.simps [simp del]

text \<open>
  \<open>bidirectionalHeuristicCrossover\<close> draws twice: the direction, then the start position in
  parent 1. With an empty parent 1 the start city is \<open>undefined\<close>, the loop is skipped, and
  the distance computation reads \<open>distanceMatrix[undefined][undefined]\<close>, which throws.
\<close>

definition bidirectionalHeuristicCrossover ::
  "Chromosome \<Rightarrow> Chromosome \<Rightarrow> real list list \<Rightarrow> rng \<Rightarrow> error + (Chromosome \<times> rng)" where
  "bidirectionalHeuristicCrossover parent1 parent2 dm rs =
     (let n = length (genes parent1);
          dir = (if rs 0 < 0.5 then clockwise else counterclockwise)
      in if n = 0 then Inl TypeError
         else (let currentCity = genes parent1 ! randomIndex (rs 1) n;
                   offspring = bhxLoop n parent1 parent2 dm dir [currentCity] {currentCity} currentCity;
                   d = calculateDistanceWithMatrix offspring dm
               in Inr (\<lparr>genes = offspring, fitness = d, distance = d\<rparr>, drop_rng 2 rs)))"

text \<open>
  \<open>performCrossover\<close>: \<open>targetCount = offspringCount || parents.length\<close>, then the loop
  \<open>for (i = 0; i < targetCount; i += 2)\<close>. An entry of \<open>parents\<close> is \<open>None\<close> when selection
  returned \<open>undefined\<close>, and \<open>parents[i % parents.length]\<close> is \<open>undefined\<close> for an empty array.
  The crossover throws on \<open>parent1.genes\<close> when its first parent is \<open>undefined\<close>. It reads
  its second parent only inside its loop, which a first parent of one city never enters:
  with such a first parent and an \<open>undefined\<close> second parent the call returns what it
  returns for any second parent (here the first parent stands in), and with any other
  first parent it throws. The second call of an iteration then has the \<open>undefined\<close> parent
  first and throws.
\<close>

definition parentAt :: "Chromosome option list \<Rightarrow> nat \<Rightarrow> Chromosome option" where
  "parentAt parents i =
     (if parents = [] then None else (case nth_opt parents (i mod length parents) of
        None \<Rightarrow> None | Some p \<Rightarrow> p))"

function crossoverLoop ::
  "Chromosome option list \<Rightarrow> real list list \<Rightarrow> nat \<Rightarrow> nat \<Rightarrow> Chromosome list \<Rightarrow> rng \<Rightarrow>
   error + (Chromosome list \<times> rng)" where
  "crossoverLoop parents dm targetCount i offspring rs =
     (if i < targetCount then
        (case (parentAt parents i, parentAt parents (i + 1)) of
           (Some parent1, Some parent2) \<Rightarrow>
             (case bidirectionalHeuristicCrossover parent1 parent2 dm rs of
                Inl e \<Rightarrow> Inl e
              | Inr (c1, rs1) \<Rightarrow>
                  if length (offspring @ [c1]) < targetCount then
                    (case bidirectionalHeuristicCrossover parent2 parent1 dm rs1 of
                       Inl e \<Rightarrow> Inl e
                     | Inr (c2, rs2) \<Rightarrow>
                         crossoverLoop parents dm targetCount (i + 2) (offspring @ [c1, c2]) rs2)
                  else crossoverLoop parents dm targetCount (i + 2) (offspring @ [c1]) rs1)
         | (Some parent1, None) \<Rightarrow>
             if length (genes parent1) = 1 then
               (case bidirectionalHeuristicCrossover parent1 parent1 dm rs of
                  Inl e \<Rightarrow> Inl e
                | Inr (c1, rs1) \<Rightarrow>
                    if length (offspring @ [c1]) < targetCount then Inl TypeError
                    else crossoverLoop parents dm targetCount (i + 2) (offspring @ [c1]) rs1)
             else Inl TypeError
         | (None, _) \<Rightarrow> Inl TypeError)
      else Inr (take targetCount offspring, rs))"
  by pat_completeness auto
termination
  by (relation "measure (\<lambda>(parents, dm, targetCount, i, offspring, rs). targetCount - i)") auto

declare crossoverLoop.simps [simp del]

definition performCrossover ::
  "Chromosome option list \<Rightarrow> real list list \<Rightarrow> nat option \<Rightarrow> rng \<Rightarrow> error + (Chromosome list \<times> rng)" where
  "performCrossover parents dm offspringCount rs =
     (let targetCount = (case offspringCount of None \<Rightarrow> length parents
                         | Some c \<Rightarrow> if c = 0 then length parents else c)
      in crossoverLoop parents dm targetCount 0 [] rs)"

section \<open>Mutation (algorithms/mutation.ts)\<close>

definition calculatePs :: "nat \<Rightarrow> nat \<Rightarrow> real \<Rightarrow> real \<Rightarrow> number" where
  "calculatePs currentGen maxGen psMax psMin =
     subtractFrom psMax (timesFinite (psMax - psMin) (ratio currentGen maxGen))"

text \<open>
  The loop \<open>while (pos2 === pos1) pos2 = Math.floor(Math.random() * n)\<close> of the swap
  mutation has no bound: it draws until the positions differ, and for a tour of at most
  one city it never ends.
\<close>

partial_function (option) redrawPos2 :: "nat \<Rightarrow> nat \<Rightarrow> nat \<Rightarrow> rng \<Rightarrow> (nat \<times> rng) option" where
  "redrawPos2 n pos1 pos2 rs =
     (if pos2 = pos1 then redrawPos2 n pos1 (randomIndex (rs 0) n) (drop_rng 1 rs)
      else Some (pos2, rs))"

declare redrawPos2.simps [code]

definition swapMutation :: "Chromosome \<Rightarrow> rng \<Rightarrow> (Chromosome \<times> rng) option" where
  "swapMutation chromosome rs =
     (let g = genes chromosome;
          n = length g;
          pos1 = randomIndex (rs 0) n
      in case redrawPos2 n pos1 (randomIndex (rs 1) n) (drop_rng 2 rs) of
           None \<Rightarrow> None
         | Some (pos2, rs') \<Rightarrow> Some (\<lparr>genes = swap g pos1 pos2, fitness = 0, distance = 0\<rparr>, rs'))"

text \<open>The loop \<open>while (pos1 < pos2) { swap; pos1++; pos2-- }\<close> of the inverse mutation.\<close>

function reverseBetween :: "nat list \<Rightarrow> nat \<Rightarrow> nat \<Rightarrow> nat list" where
  "reverseBetween g pos1 pos2 =
     (if pos1 < pos2 then reverseBetween (swap g pos1 pos2) (pos1 + 1) (pos2 - 1) else g)"
  by pat_completeness auto
termination
  by (relation "measure (\<lambda>(g, pos1, pos2). pos2 - pos1)") auto

declare reverseBetween.simps [simp del]

definition inverseMutation :: "Chromosome \<Rightarrow> rng \<Rightarrow> Chromosome \<times> rng" where
  "inverseMutation chromosome rs =
     (let g = genes chromosome;
          n = length g;
          p1 = randomIndex (rs 0) n;
          p2 = randomIndex (rs 1) n;
          (pos1, pos2) = (if p1 > p2 then (p2, p1) else (p1, p2))
      in (\<lparr>genes = reverseBetween g pos1 pos2, fitness = 0, distance = 0\<rparr>, drop_rng 2 rs))"

text \<open>
  The search loop of the heuristic mutation, with \<open>nearestStep\<close> for one iteration. Its state is \<open>None\<close> for the initial
  \<open>nearestCity = -1\<close>, \<open>minDistance = Infinity\<close>, and \<open>Some (nearestCity, minDistance)\<close> after
  the first update. \<open>splice(p, 1)\<close> is \<open>removeAt\<close> and \<open>splice(p, 0, v)\<close> is \<open>insertAt\<close>; both
  \<open>indexOf\<close> results are non-negative there, the cities being in the array.
\<close>

definition removeAt :: "'a list \<Rightarrow> nat \<Rightarrow> 'a list" where
  "removeAt xs p = take p xs @ drop (p + 1) xs"

definition insertAt :: "'a list \<Rightarrow> nat \<Rightarrow> 'a \<Rightarrow> 'a list" where
  "insertAt xs p v = take p xs @ [v] @ drop p xs"

definition nearestStep ::
  "nat list \<Rightarrow> nat \<Rightarrow> real list list \<Rightarrow> nat \<Rightarrow> (nat \<times> real) option \<Rightarrow> (nat \<times> real) option" where
  "nearestStep g pos1 dm i st =
     (let n = length g;
          city1 = g ! pos1;
          city2 = g ! i;
          prevPos = (pos1 + n - 1) mod n;
          nextPos = (pos1 + 1) mod n
      in if city2 = city1 then st
         else if i = prevPos \<or> i = nextPos then st
         else (let dist = dm ! city1 ! city2
               in case st of
                    None \<Rightarrow> Some (city2, dist)
                  | Some (nearestCity, minDistance) \<Rightarrow>
                      if dist < minDistance then Some (city2, dist) else st))"

definition nearestNonAdjacent :: "nat list \<Rightarrow> nat \<Rightarrow> real list list \<Rightarrow> (nat \<times> real) option" where
  "nearestNonAdjacent g pos1 dm = fold (nearestStep g pos1 dm) [0 ..< length g] None"

definition heuristicMutation :: "Chromosome \<Rightarrow> real list list \<Rightarrow> rng \<Rightarrow> Chromosome \<times> rng" where
  "heuristicMutation chromosome dm rs =
     (let g = genes chromosome;
          n = length g;
          pos1 = randomIndex (rs 0) n;
          city1 = g ! pos1;
          g' = (case nearestNonAdjacent g pos1 dm of
                  None \<Rightarrow> g
                | Some (nearestCity, minDistance) \<Rightarrow>
                    (let pos2 = nat (indexOf g nearestCity);
                         g1 = removeAt g pos2;
                         insertPos = nat (indexOf g1 city1 + 1)
                     in insertAt g1 insertPos nearestCity))
      in (\<lparr>genes = g', fitness = 0, distance = 0\<rparr>, drop_rng 1 rs))"

definition combinationMutation ::
  "Chromosome \<Rightarrow> number \<Rightarrow> real \<Rightarrow> real list list \<Rightarrow> rng \<Rightarrow> (Chromosome \<times> rng) option" where
  "combinationMutation chromosome Ps b dm rs =
     (let mu = rs 0
      in if lessEq mu Ps then swapMutation chromosome (drop_rng 1 rs)
         else if lessEq mu (plusFinite Ps b) then Some (inverseMutation chromosome (drop_rng 1 rs))
         else Some (heuristicMutation chromosome dm (drop_rng 1 rs)))"

text \<open>
  \<open>calculateFitnessForChromosomes\<close>, \<open>calculateFitnessAfterJumping\<close> and
  \<open>calculateFitnessAfterUnique\<close> have the same body in the source: a chromosome whose
  \<open>fitness\<close> is \<open>0\<close> gets the cyclic length of its tour in both fields, any other is returned
  as it is.
\<close>

definition rescore :: "real list list \<Rightarrow> Chromosome \<Rightarrow> Chromosome" where
  "rescore dm chr =
     (if fitness chr = 0 then
        (let d = (\<Sum>i\<leftarrow>[0 ..< length (genes chr)].
                    dm ! (genes chr ! i) ! (genes chr ! ((i + 1) mod length (genes chr))))
         in chr\<lparr>fitness := d, distance := d\<rparr>)
      else chr)"

definition calculateFitnessForChromosomes :: "Chromosome list \<Rightarrow> real list list \<Rightarrow> Chromosome list" where
  "calculateFitnessForChromosomes chrs dm = map (rescore dm) chrs"

fun mutateEach ::
  "Chromosome list \<Rightarrow> number \<Rightarrow> real \<Rightarrow> real list list \<Rightarrow> rng \<Rightarrow> (Chromosome list \<times> rng) option" where
  "mutateEach [] Ps b dm rs = Some ([], rs)"
| "mutateEach (chr # rest) Ps b dm rs =
     (case combinationMutation chr Ps b dm rs of
        None \<Rightarrow> None
      | Some (c, rs1) \<Rightarrow>
          (case mutateEach rest Ps b dm rs1 of
             None \<Rightarrow> None
           | Some (cs, rs2) \<Rightarrow> Some (c # cs, rs2)))"

definition performMutation ::
  "Chromosome list \<Rightarrow> number \<Rightarrow> real \<Rightarrow> real list list \<Rightarrow> rng \<Rightarrow> (Chromosome list \<times> rng) option" where
  "performMutation chrs Ps b dm rs =
     (case mutateEach chrs Ps b dm rs of
        None \<Rightarrow> None
      | Some (mutated, rs') \<Rightarrow> Some (calculateFitnessForChromosomes mutated dm, rs'))"

section \<open>Jumping gene (algorithms/jumpingGene.ts)\<close>

text \<open>
  \<open>jumpingGeneOperator\<close> draws once for the gate; when the gate passes it draws \<open>n\<close> times
  for the mask and once for the insert position. The loop that pushes \<open>genes[i]\<close> onto
  \<open>extractedGenes\<close> or \<open>remainingGenes\<close> by the mask is the pair of order-preserving
  selections of the positions with mask \<open>1\<close> and of the others.
\<close>

definition jumpingGeneOperator :: "Chromosome \<Rightarrow> real \<Rightarrow> int \<Rightarrow> rng \<Rightarrow> Chromosome \<times> rng" where
  "jumpingGeneOperator chromosome PJG q rs =
     (if rs 0 > PJG then (chromosome, drop_rng 1 rs)
      else
        (let n = length (genes chromosome);
             g = genes chromosome;
             mask = map (\<lambda>i. if rs (1 + i) < 0.5 then (1::nat) else 0) [0 ..< n];
             extractedGenes = map (\<lambda>i. g ! i) (filter (\<lambda>i. mask ! i = 1) [0 ..< n]);
             remainingGenes = map (\<lambda>i. g ! i) (filter (\<lambda>i. mask ! i \<noteq> 1) [0 ..< n]);
             segmentLength = min q (int (length extractedGenes));
             segment = slice extractedGenes 0 segmentLength;
             leftoverExtracted = sliceFrom extractedGenes segmentLength;
             finalRemaining = filter (\<lambda>gene. gene \<notin> set segment) remainingGenes @ leftoverExtracted;
             insertPos = randomIndex (rs (1 + n)) (length finalRemaining + 1);
             newGenes = take insertPos finalRemaining @ segment @ drop insertPos finalRemaining
         in (\<lparr>genes = newGenes, fitness = 0, distance = 0\<rparr>, drop_rng (n + 2) rs)))"

fun applyJumpingGeneToPopulation ::
  "Chromosome list \<Rightarrow> real \<Rightarrow> int \<Rightarrow> rng \<Rightarrow> Chromosome list \<times> rng" where
  "applyJumpingGeneToPopulation [] PJG q rs = ([], rs)"
| "applyJumpingGeneToPopulation (chr # rest) PJG q rs =
     (let (c, rs1) = jumpingGeneOperator chr PJG q rs;
          (cs, rs2) = applyJumpingGeneToPopulation rest PJG q rs1
      in (c # cs, rs2))"

definition calculateFitnessAfterJumping :: "Chromosome list \<Rightarrow> real list list \<Rightarrow> Chromosome list" where
  "calculateFitnessAfterJumping chrs dm = map (rescore dm) chrs"

section \<open>Unique operator (algorithms/unique.ts)\<close>

text \<open>
  \<open>uniqueOperator\<close>: the loop over the population with the set \<open>seen\<close> of keys (the gene
  sequences, see the remark at the fitness map). A duplicate is replaced by a random tour
  with \<open>fitness\<close> and \<open>distance\<close> \<open>0\<close>, whose key is not entered into \<open>seen\<close>.
\<close>

fun uniqueLoop :: "Chromosome list \<Rightarrow> nat \<Rightarrow> nat list set \<Rightarrow> rng \<Rightarrow> Chromosome list \<times> rng" where
  "uniqueLoop [] cityCount seen rs = ([], rs)"
| "uniqueLoop (chromosome # rest) cityCount seen rs =
     (let key = genes chromosome
      in if key \<in> seen then
           (let (randomGenes, rs1) = generateRandomChromosome cityCount rs;
                (result, rs2) = uniqueLoop rest cityCount seen rs1
            in (\<lparr>genes = randomGenes, fitness = 0, distance = 0\<rparr> # result, rs2))
         else
           (let (result, rs1) = uniqueLoop rest cityCount (insert key seen) rs
            in (chromosome # result, rs1)))"

definition uniqueOperator :: "Chromosome list \<Rightarrow> nat \<Rightarrow> rng \<Rightarrow> Chromosome list \<times> rng" where
  "uniqueOperator population cityCount rs = uniqueLoop population cityCount {} rs"

definition calculateFitnessAfterUnique :: "Chromosome list \<Rightarrow> real list list \<Rightarrow> Chromosome list" where
  "calculateFitnessAfterUnique chrs dm = map (rescore dm) chrs"

text \<open>\<open>calculateDiversity\<close>: the number of distinct keys over the length, \<open>NaN\<close> for \<open>0 / 0\<close>.\<close>

definition calculateDiversity :: "Chromosome list \<Rightarrow> real option" where
  "calculateDiversity population =
     (if population = [] then None
      else Some (real (length (remdups (map genes population))) / real (length population)))"

section \<open>2-opt local search (algorithms/twoOpt.ts)\<close>

text \<open>
  One test of the pair \<open>(i, j)\<close> in the scan: the state is the tour and the flag
  \<open>improved\<close>. \<open>genes.slice(0, i + 1)\<close>, \<open>genes.slice(i + 1, j + 1).reverse()\<close> and
  \<open>genes.slice(j + 1)\<close> have non-negative bounds with \<open>i < j\<close>.
\<close>

definition twoOptStep ::
  "real list list \<Rightarrow> nat \<Rightarrow> nat \<Rightarrow> nat \<Rightarrow> nat list \<times> bool \<Rightarrow> nat list \<times> bool" where
  "twoOptStep dm n i j st =
     (let g = fst st;
          currentDist = dm ! (g ! i) ! (g ! (i + 1)) + dm ! (g ! j) ! (g ! ((j + 1) mod n));
          newDist = dm ! (g ! i) ! (g ! j) + dm ! (g ! (i + 1)) ! (g ! ((j + 1) mod n))
      in if newDist < currentDist then
           (take (i + 1) g @ rev (take (j - i) (drop (i + 1) g)) @ drop (j + 1) g, True)
         else st)"

text \<open>One pass: \<open>for (i = 0; i < n - 1; i++) for (j = i + 1; j < n; j++)\<close>.\<close>

definition twoOptPass :: "real list list \<Rightarrow> nat \<Rightarrow> nat list \<times> bool \<Rightarrow> nat list \<times> bool" where
  "twoOptPass dm n st =
     fold (\<lambda>i st. fold (\<lambda>j st. twoOptStep dm n i j st) [i + 1 ..< n] st) [0 ..< n - 1] st"

text \<open>The loop \<open>while (improved)\<close>, which has no bound in the source.\<close>

partial_function (option) twoOptLoop :: "real list list \<Rightarrow> nat \<Rightarrow> nat list \<Rightarrow> nat list option" where
  "twoOptLoop dm n g =
     (let st = twoOptPass dm n (g, False)
      in if snd st then twoOptLoop dm n (fst st) else Some (fst st))"

declare twoOptLoop.simps [code]

definition twoOptOperator :: "Chromosome \<Rightarrow> real list list \<Rightarrow> Chromosome option" where
  "twoOptOperator chromosome dm =
     (let n = length (genes chromosome)
      in case twoOptLoop dm n (genes chromosome) of
           None \<Rightarrow> None
         | Some g \<Rightarrow>
             (let d = (\<Sum>i\<leftarrow>[0 ..< n]. dm ! (g ! i) ! (g ! ((i + 1) mod n)))
              in Some \<lparr>genes = g, fitness = d, distance = d\<rparr>))"

text \<open>
  \<open>applyTwoOptToPopulation\<close>: with \<open>applyToAll\<close> every member is improved in place;
  otherwise the population is sorted and the first \<open>topN\<close> of the sorted members are
  improved. \<open>twoOptEach k\<close> improves the first \<open>k\<close> members of a list.
\<close>

fun twoOptEach :: "nat \<Rightarrow> Chromosome list \<Rightarrow> real list list \<Rightarrow> Chromosome list option" where
  "twoOptEach k [] dm = Some []"
| "twoOptEach 0 (chr # rest) dm = Some (chr # rest)"
| "twoOptEach (Suc k) (chr # rest) dm =
     (case twoOptOperator chr dm of
        None \<Rightarrow> None
      | Some c \<Rightarrow> (case twoOptEach k rest dm of None \<Rightarrow> None | Some cs \<Rightarrow> Some (c # cs)))"

definition applyTwoOptToPopulation ::
  "Chromosome list \<Rightarrow> real list list \<Rightarrow> bool \<Rightarrow> nat \<Rightarrow> Chromosome list option" where
  "applyTwoOptToPopulation population dm applyToAll topN =
     (if applyToAll then twoOptEach (length population) population dm
      else twoOptEach topN (sortByDistance population) dm)"

section \<open>The GA-JGHO driver (algorithms/GAJGHO.ts)\<close>

text \<open>
  The private fields of the class. \<open>Date.now()\<close> is an input of the operations that read
  the clock.
\<close>

record GAJGHO =
  jg_cities :: "City list"
  jg_params :: AlgorithmParams
  jg_distanceMatrix :: "real list list"
  jg_currentPopulation :: "Chromosome list"
  jg_generation :: nat
  jg_startTime :: real

definition newGAJGHO :: "City list \<Rightarrow> AlgorithmParams \<Rightarrow> real \<Rightarrow> GAJGHO" where
  "newGAJGHO cs ps now =
     \<lparr>jg_cities = cs, jg_params = ps, jg_distanceMatrix = buildDistanceMatrix cs,
      jg_currentPopulation = [], jg_generation = 0, jg_startTime = now\<rparr>"

definition GAJGHO_initialize :: "GAJGHO \<Rightarrow> real \<Rightarrow> rng \<Rightarrow> GAJGHO \<times> rng" where
  "GAJGHO_initialize st now rs =
     (let (population, rs') = initializePopulation (jg_cities st) (populationSize (jg_params st)) rs
      in (st\<lparr>jg_currentPopulation := population, jg_generation := 0, jg_startTime := now\<rparr>, rs'))"

definition GAJGHO_reset :: "GAJGHO \<Rightarrow> real \<Rightarrow> GAJGHO" where
  "GAJGHO_reset st now = st\<lparr>jg_currentPopulation := [], jg_generation := 0, jg_startTime := now\<rparr>"

text \<open>
  \<open>getPopulation\<close>: \<open>sorted[0]\<close> and \<open>sorted[sorted.length - 1]\<close> are \<open>undefined\<close> for an empty
  population, and the sum \<open>0\<close> divided by the length \<open>0\<close> is \<open>NaN\<close>.
\<close>

definition averageDistanceOf :: "Chromosome list \<Rightarrow> real option" where
  "averageDistanceOf srt =
     (if srt = [] then None else Some ((\<Sum>chr\<leftarrow>srt. distance chr) / real (length srt)))"

definition GAJGHO_getPopulation :: "GAJGHO \<Rightarrow> Population" where
  "GAJGHO_getPopulation st =
     (let srt = sortByDistance (jg_currentPopulation st)
      in \<lparr>chromosomes = jg_currentPopulation st,
          generation = jg_generation st,
          best = nth_opt srt 0,
          worst = (if srt = [] then None else nth_opt srt (length srt - 1)),
          average = averageDistanceOf srt,
          diversity = calculateDiversity (jg_currentPopulation st)\<rparr>)"

text \<open>
  \<open>getStats\<close> reads \<open>population.best.distance\<close> and \<open>population.worst.distance\<close>, which
  throws when \<open>best\<close> is \<open>undefined\<close>. \<open>average\<close> and \<open>diversity\<close> are numbers whenever \<open>best\<close>
  is defined.
\<close>

definition GAJGHO_getStats :: "GAJGHO \<Rightarrow> real \<Rightarrow> error + GenerationStats" where
  "GAJGHO_getStats st now =
     (let population = GAJGHO_getPopulation st
      in case (best population, worst population, average population, diversity population) of
           (Some b, Some w, Some a, Some d) \<Rightarrow>
             Inr \<lparr>stat_generation = jg_generation st, bestDistance = distance b,
                  averageDistance = a, worstDistance = distance w, stat_diversity = d,
                  elapsedTime = now - jg_startTime st\<rparr>
         | _ \<Rightarrow> Inl TypeError)"

text \<open>
  \<open>runGeneration\<close>. The outer \<open>None\<close> is a run that does not return (the redraw loop of the
  swap mutation, the \<open>while (improved)\<close> loop of 2-opt); \<open>Inl TypeError\<close> is the throw of the
  crossover on an \<open>undefined\<close> parent. \<open>Math.floor(populationSize * 0.2)\<close> is the number of
  offspring given to 2-opt; \<open>slice(0, populationSize - eliteCount)\<close> has a negative bound
  when there are more elites than members.
\<close>

definition elitism :: "Chromosome list \<Rightarrow> Chromosome list \<Rightarrow> nat \<Rightarrow> nat \<Rightarrow> Chromosome list" where
  "elitism previous offspring P E =
     (let sortedPrevious = sortByDistance previous;
          elites = slice sortedPrevious 0 (int E);
          sortedOffspring = sortByDistance offspring
      in sortByDistance (slice sortedOffspring 0 (int P - int E) @ elites))"

definition GAJGHO_runGeneration :: "GAJGHO \<Rightarrow> rng \<Rightarrow> (error + (GAJGHO \<times> Population \<times> rng)) option" where
  "GAJGHO_runGeneration st rs =
     (let ps = jg_params st;
          P = populationSize ps;
          dm = jg_distanceMatrix st;
          Pfit = calculatePfit (jg_generation st) (maxGenerations ps) (PfitMax ps) (PfitMin ps);
          Ps = calculatePs (jg_generation st) (maxGenerations ps) (PsMax ps) (PsMin ps);
          (parents, rs1) = selectParents (jg_currentPopulation st) P Pfit (betaParam ps) rs
      in case performCrossover parents dm (Some P) rs1 of
           Inl e \<Rightarrow> Some (Inl e)
         | Inr (offspring1, rs2) \<Rightarrow>
             (let (offspring2, rs3) = uniqueOperator offspring1 (length (jg_cities st)) rs2;
                  offspring3 = calculateFitnessAfterUnique offspring2 dm
              in case performMutation offspring3 Ps (betaParam ps) dm rs3 of
                   None \<Rightarrow> None
                 | Some (offspring4, rs4) \<Rightarrow>
                     (let (offspring5, rs5) =
                            applyJumpingGeneToPopulation offspring4 (PJGParam ps) (qParam ps) rs4;
                          offspring6 = calculateFitnessAfterJumping offspring5 dm
                      in case applyTwoOptToPopulation offspring6 dm False
                                (nat \<lfloor>real P * 0.2\<rfloor>) of
                           None \<Rightarrow> None
                         | Some offspring7 \<Rightarrow>
                             (let st' = st\<lparr>jg_currentPopulation :=
                                             elitism (jg_currentPopulation st) offspring7 P (eliteCount ps),
                                           jg_generation := jg_generation st + 1\<rparr>
                              in Some (Inr (st', GAJGHO_getPopulation st', rs5))))))"

text \<open>
  \<open>k\<close> calls of \<open>runGeneration\<close> in sequence, as the stepping loop of \<open>run\<close> and of the store
  makes them; the first call that throws or does not return ends the sequence.
\<close>

fun GAJGHO_generations :: "nat \<Rightarrow> GAJGHO \<Rightarrow> rng \<Rightarrow> (error + (GAJGHO \<times> rng)) option" where
  "GAJGHO_generations 0 st rs = Some (Inr (st, rs))"
| "GAJGHO_generations (Suc k) st rs =
     (case GAJGHO_runGeneration st rs of
        None \<Rightarrow> None
      | Some (Inl e) \<Rightarrow> Some (Inl e)
      | Some (Inr (st', population, rs')) \<Rightarrow> GAJGHO_generations k st' rs')"

section \<open>The store action that creates the algorithm (store/algorithmStore.ts)\<close>

record AlgorithmStore =
  store_cities :: "City list"
  store_params :: AlgorithmParams
  algorithm :: "GAJGHO option"
  isRunning :: bool
  isPaused :: bool
  currentGeneration :: nat
  currentPopulation :: "Population option"
  history :: "GenerationStats list"

text \<open>
  \<open>initializeAlgorithm\<close>: with fewer than three cities it writes a warning to the console
  and returns, the store as it was; the second component of the result is the console
  output. Otherwise it creates and initializes the algorithm and reads the first snapshot
  and statistics, where \<open>getStats\<close> can throw. The draws and the clock are inputs.
\<close>

definition initializeAlgorithm ::
  "AlgorithmStore \<Rightarrow> real \<Rightarrow> rng \<Rightarrow> error + (AlgorithmStore \<times> string list)" where
  "initializeAlgorithm store now rs =
     (if length (store_cities store) < 3 then
        Inr (store, [''Need at least 3 cities to run algorithm''])
      else
        (let alg = fst (GAJGHO_initialize (newGAJGHO (store_cities store) (store_params store) now) now rs);
             population = GAJGHO_getPopulation alg
         in case GAJGHO_getStats alg now of
              Inl e \<Rightarrow> Inl e
            | Inr stats \<Rightarrow>
                Inr (store\<lparr>algorithm := Some alg, currentPopulation := Some population,
                           currentGeneration := 0, history := [stats],
                           isRunning := False, isPaused := False\<rparr>, [])))"

section \<open>The standard genetic algorithm (algorithms/StandardGA.ts)\<close>

record StandardGA =
  sga_cities :: "City list"
  sga_params :: AlgorithmParams
  sga_distanceMatrix :: "real list list"
  sga_population :: "Chromosome list"
  sga_currentGeneration :: nat
  sga_stats :: "GenerationStats list"

definition newStandardGA :: "City list \<Rightarrow> AlgorithmParams \<Rightarrow> StandardGA" where
  "newStandardGA cs ps =
     \<lparr>sga_cities = cs, sga_params = ps, sga_distanceMatrix = buildDistanceMatrix cs,
      sga_population = [], sga_currentGeneration = 0, sga_stats = []\<rparr>"

text \<open>
  \<open>createRandomChromosome\<close> (and \<open>createRandomSolution\<close> of the bee colony) repeat the
  Fisher-Yates loop of \<open>generateRandomChromosome\<close> and score the tour with the matrix.
\<close>

definition createRandomChromosome :: "nat \<Rightarrow> real list list \<Rightarrow> rng \<Rightarrow> Chromosome \<times> rng" where
  "createRandomChromosome cityCount dm rs =
     (let (g, rs') = generateRandomChromosome cityCount rs;
          d = calculateTotalDistanceWithMatrix g dm
      in (\<lparr>genes = g, fitness = d, distance = d\<rparr>, rs'))"

text \<open>\<open>Array.from({ length: k }, () => create())\<close>: \<open>k\<close> calls in order.\<close>

fun arrayFrom :: "nat \<Rightarrow> (rng \<Rightarrow> 'a \<times> rng) \<Rightarrow> rng \<Rightarrow> 'a list \<times> rng" where
  "arrayFrom 0 create rs = ([], rs)"
| "arrayFrom (Suc k) create rs =
     (let (a, rs1) = create rs; (rest, rs2) = arrayFrom k create rs1 in (a # rest, rs2))"

text \<open>
  The statistics record that \<open>updateStats\<close> pushes, shared by the comparator classes: the
  population is sorted in place first, and \<open>best.distance\<close> throws for an empty population.
\<close>

definition statsOf :: "Chromosome list \<Rightarrow> nat \<Rightarrow> real \<Rightarrow> error + GenerationStats" where
  "statsOf srt gen elapsed =
     (if srt = [] then Inl TypeError
      else Inr \<lparr>stat_generation = gen,
                bestDistance = distance (srt ! 0),
                averageDistance = (\<Sum>c\<leftarrow>srt. distance c) / real (length srt),
                worstDistance = distance (srt ! (length srt - 1)),
                stat_diversity = real (length (remdups (map genes srt))) / real (length srt),
                elapsedTime = elapsed\<rparr>)"

definition StandardGA_updateStats :: "StandardGA \<Rightarrow> real \<Rightarrow> error + StandardGA" where
  "StandardGA_updateStats st elapsed =
     (let srt = sortByDistance (sga_population st)
      in case statsOf srt (sga_currentGeneration st) elapsed of
           Inl e \<Rightarrow> Inl e
         | Inr stats \<Rightarrow> Inr (st\<lparr>sga_population := srt, sga_stats := sga_stats st @ [stats]\<rparr>))"

definition StandardGA_initialize :: "StandardGA \<Rightarrow> rng \<Rightarrow> error + (StandardGA \<times> rng)" where
  "StandardGA_initialize st rs =
     (let (population, rs') =
            arrayFrom (populationSize (sga_params st))
              (createRandomChromosome (length (sga_cities st)) (sga_distanceMatrix st)) rs
      in case StandardGA_updateStats (st\<lparr>sga_population := population\<rparr>) 0 of
           Inl e \<Rightarrow> Inl e
         | Inr st' \<Rightarrow> Inr (st', rs'))"

text \<open>
  \<open>selection\<close>: fitness \<open>maxDistance - distance + 1\<close>, then \<open>populationSize\<close> spins of the
  wheel; a spin that reaches no member pushes nothing. For an empty population
  \<open>maxDistance\<close> is not used.
\<close>

fun selectLoop :: "Chromosome list \<Rightarrow> real list \<Rightarrow> real \<Rightarrow> nat \<Rightarrow> rng \<Rightarrow> Chromosome list \<times> rng" where
  "selectLoop population fitnesses totalFitness 0 rs = ([], rs)"
| "selectLoop population fitnesses totalFitness (Suc k) rs =
     (let rand = rs 0 * totalFitness;
          picked = (case wheel fitnesses rand [0 ..< length population] 0 of
                      Some j \<Rightarrow> [population ! j]
                    | None \<Rightarrow> []);
          (rest, rs') = selectLoop population fitnesses totalFitness k (drop_rng 1 rs)
      in (picked @ rest, rs'))"

definition StandardGA_selection :: "StandardGA \<Rightarrow> rng \<Rightarrow> Chromosome list \<times> rng" where
  "StandardGA_selection st rs =
     (let maxDistance = Max (set (map distance (sga_population st)));
          fitnesses = map (\<lambda>c. maxDistance - distance c + 1) (sga_population st);
          totalFitness = sum_list fitnesses
      in selectLoop (sga_population st) fitnesses totalFitness (populationSize (sga_params st)) rs)"

text \<open>
  The order crossover. \<open>child\<close> is an array of numbers with \<open>-1\<close> for an empty position.
  The loop \<open>while (child.includes(-1))\<close> has no bound in the source. With an empty parent 1
  the child is \<open>[undefined]\<close> and the distance computation throws. The parents have the
  same length.
\<close>

partial_function (option) fillLoop :: "nat \<Rightarrow> nat list \<Rightarrow> int list \<Rightarrow> nat \<Rightarrow> nat \<Rightarrow> int list option" where
  "fillLoop n g2 child childIdx parentIdx =
     (if (- 1) \<in> set child then
        (let gene = int (g2 ! parentIdx)
         in if gene \<notin> set child then
              fillLoop n g2 (child[childIdx := gene]) ((childIdx + 1) mod n) ((parentIdx + 1) mod n)
            else fillLoop n g2 child childIdx ((parentIdx + 1) mod n))
      else Some child)"

declare fillLoop.simps [code]

definition StandardGA_crossover ::
  "real list list \<Rightarrow> Chromosome \<Rightarrow> Chromosome \<Rightarrow> rng \<Rightarrow> (error + (Chromosome \<times> rng)) option" where
  "StandardGA_crossover dm parent1 parent2 rs =
     (let n = length (genes parent1)
      in if n = 0 then Some (Inl TypeError)
         else
           (let point1 = randomIndex (rs 0) n;
                point2 = randomIndex (rs 1) n;
                start = min point1 point2;
                end = max point1 point2;
                child0 = map (\<lambda>i. if start \<le> i \<and> i \<le> end then int (genes parent1 ! i) else - 1)
                             [0 ..< n]
            in case fillLoop n (genes parent2) child0 ((end + 1) mod n) ((end + 1) mod n) of
                 None \<Rightarrow> None
               | Some child \<Rightarrow>
                   (let g = map nat child;
                        d = calculateTotalDistanceWithMatrix g dm
                    in Some (Inr (\<lparr>genes = g, fitness = d, distance = d\<rparr>, drop_rng 2 rs)))))"

text \<open>
  The mutation: one draw for the gate of rate \<open>0.2\<close>, two more for the positions. On an
  empty tour the swap writes \<open>undefined\<close> into \<open>genes[0]\<close>, on which the distance
  computation throws.
\<close>

definition StandardGA_mutation ::
  "real list list \<Rightarrow> Chromosome \<Rightarrow> rng \<Rightarrow> error + (Chromosome \<times> rng)" where
  "StandardGA_mutation dm chromosome rs =
     (let g = genes chromosome
      in if rs 0 < 0.2 \<and> g = [] then Inl TypeError
         else
           (let (g', rs') = (if rs 0 < 0.2 then
                               (swap g (randomIndex (rs 1) (length g)) (randomIndex (rs 2) (length g)),
                                drop_rng 3 rs)
                             else (g, drop_rng 1 rs));
                d = calculateTotalDistanceWithMatrix g' dm
            in Inr (\<lparr>genes = g', fitness = d, distance = d\<rparr>, rs')))"

text \<open>
  The loop \<open>while (newPopulation.length < populationSize)\<close>: \<open>breed k\<close> produces the \<open>k\<close>
  offspring still missing. \<open>selected[...]\<close> is \<open>undefined\<close> for an empty selection, on which
  the crossover throws.
\<close>

fun breed ::
  "real list list \<Rightarrow> Chromosome list \<Rightarrow> nat \<Rightarrow> rng \<Rightarrow> (error + (Chromosome list \<times> rng)) option" where
  "breed dm selected 0 rs = Some (Inr ([], rs))"
| "breed dm selected (Suc k) rs =
     (case (nth_opt selected (randomIndex (rs 0) (length selected)),
            nth_opt selected (randomIndex (rs 1) (length selected))) of
        (Some parent1, Some parent2) \<Rightarrow>
          (case StandardGA_crossover dm parent1 parent2 (drop_rng 2 rs) of
             None \<Rightarrow> None
           | Some (Inl e) \<Rightarrow> Some (Inl e)
           | Some (Inr (offspring, rs1)) \<Rightarrow>
               (case breed dm selected k rs1 of
                  None \<Rightarrow> None
                | Some (Inl e) \<Rightarrow> Some (Inl e)
                | Some (Inr (rest, rs2)) \<Rightarrow> Some (Inr (offspring # rest, rs2))))
      | _ \<Rightarrow> Some (Inl TypeError))"

text \<open>The loop \<open>for (i = eliteCount; i < newPopulation.length; i++)\<close> over the members to mutate.\<close>

fun mutateAll ::
  "real list list \<Rightarrow> Chromosome list \<Rightarrow> rng \<Rightarrow> error + (Chromosome list \<times> rng)" where
  "mutateAll dm [] rs = Inr ([], rs)"
| "mutateAll dm (c # rest) rs =
     (case StandardGA_mutation dm c rs of
        Inl e \<Rightarrow> Inl e
      | Inr (c', rs1) \<Rightarrow>
          (case mutateAll dm rest rs1 of
             Inl e \<Rightarrow> Inl e
           | Inr (rest', rs2) \<Rightarrow> Inr (c' # rest', rs2)))"

definition StandardGA_getPopulation :: "StandardGA \<Rightarrow> StandardGA \<times> Population" where
  "StandardGA_getPopulation st =
     (let srt = sortByDistance (sga_population st)
      in (st\<lparr>sga_population := srt\<rparr>,
          \<lparr>chromosomes = srt,
           generation = sga_currentGeneration st,
           best = nth_opt srt 0,
           worst = (if srt = [] then None else nth_opt srt (length srt - 1)),
           average = averageDistanceOf srt,
           diversity = calculateDiversity srt\<rparr>))"

text \<open>
  \<open>runGeneration\<close>: the elites are the first \<open>eliteCount\<close> members of the sorted population;
  the offspring fill the population up to \<open>populationSize\<close>; the members from index
  \<open>eliteCount\<close> on are mutated. \<open>elapsed\<close> is the difference of the two clock readings.
\<close>

definition StandardGA_runGeneration ::
  "StandardGA \<Rightarrow> real \<Rightarrow> rng \<Rightarrow> (error + (StandardGA \<times> Population \<times> rng)) option" where
  "StandardGA_runGeneration st elapsed rs =
     (let ps = sga_params st;
          dm = sga_distanceMatrix st;
          st1 = st\<lparr>sga_population := sortByDistance (sga_population st)\<rparr>;
          elites = take (eliteCount ps) (sga_population st1);
          (selected, rs1) = StandardGA_selection st1 rs
      in case breed dm selected (populationSize ps - length elites) rs1 of
           None \<Rightarrow> None
         | Some (Inl e) \<Rightarrow> Some (Inl e)
         | Some (Inr (offspring, rs2)) \<Rightarrow>
             (let newPopulation = elites @ offspring
              in case mutateAll dm (drop (eliteCount ps) newPopulation) rs2 of
                   Inl e \<Rightarrow> Some (Inl e)
                 | Inr (mutated, rs3) \<Rightarrow>
                     (let st2 = st1\<lparr>sga_population := take (eliteCount ps) newPopulation @ mutated,
                                        sga_currentGeneration := sga_currentGeneration st + 1\<rparr>
                      in case StandardGA_updateStats st2 elapsed of
                           Inl e \<Rightarrow> Some (Inl e)
                         | Inr st3 \<Rightarrow>
                             (let (st4, population) = StandardGA_getPopulation st3
                              in Some (Inr (st4, population, rs3))))))"

section \<open>The artificial bee colony (class \<open>ABCTSP\<close>)\<close>

record ABCTSP =
  abc_cities :: "City list"
  abc_params :: AlgorithmParams
  abc_distanceMatrix :: "real list list"
  abc_foodSources :: "Chromosome list"
  abc_trials :: "nat list"
  abc_currentGeneration :: nat
  abc_limit :: nat
  abc_stats :: "GenerationStats list"

text \<open>\<open>limit = Math.floor(populationSize * cities.length / 2)\<close>.\<close>

definition newABCTSP :: "City list \<Rightarrow> AlgorithmParams \<Rightarrow> ABCTSP" where
  "newABCTSP cs ps =
     \<lparr>abc_cities = cs, abc_params = ps, abc_distanceMatrix = buildDistanceMatrix cs,
      abc_foodSources = [], abc_trials = [], abc_currentGeneration = 0,
      abc_limit = (populationSize ps * length cs) div 2, abc_stats = []\<rparr>"

definition ABCTSP_updateStats :: "ABCTSP \<Rightarrow> real \<Rightarrow> error + ABCTSP" where
  "ABCTSP_updateStats st elapsed =
     (let srt = sortByDistance (abc_foodSources st)
      in case statsOf srt (abc_currentGeneration st) elapsed of
           Inl e \<Rightarrow> Inl e
         | Inr stats \<Rightarrow> Inr (st\<lparr>abc_foodSources := srt, abc_stats := abc_stats st @ [stats]\<rparr>))"

text \<open>
  \<open>initialize\<close>: \<open>colonySize = Math.floor(populationSize / 2)\<close> random sources with trial
  counters \<open>0\<close> (\<open>ABCTSP_seed\<close>, the assignments before \<open>updateStats\<close>), then \<open>updateStats\<close>.
\<close>

definition ABCTSP_seed :: "ABCTSP \<Rightarrow> rng \<Rightarrow> ABCTSP \<times> rng" where
  "ABCTSP_seed st rs =
     (let colonySize = populationSize (abc_params st) div 2;
          (sources, rs') =
            arrayFrom colonySize
              (createRandomChromosome (length (abc_cities st)) (abc_distanceMatrix st)) rs
      in (st\<lparr>abc_foodSources := sources, abc_trials := replicate colonySize 0\<rparr>, rs'))"

definition ABCTSP_initialize :: "ABCTSP \<Rightarrow> rng \<Rightarrow> error + (ABCTSP \<times> rng)" where
  "ABCTSP_initialize st rs =
     (let (st1, rs') = ABCTSP_seed st rs
      in case ABCTSP_updateStats st1 0 of
           Inl e \<Rightarrow> Inl e
         | Inr st2 \<Rightarrow> Inr (st2, rs'))"

text \<open>
  \<open>generateNeighborSolution\<close>: one draw for the kind of move and two for the positions.
  The swap on an empty tour writes \<open>undefined\<close> into the array, on which the distance
  computation throws; the segment reversal of an empty tour is the empty tour.
\<close>

definition generateNeighborSolution ::
  "real list list \<Rightarrow> Chromosome \<Rightarrow> rng \<Rightarrow> error + (Chromosome \<times> rng)" where
  "generateNeighborSolution dm source rs =
     (let g = genes source;
          n = length g;
          i = randomIndex (rs 1) n;
          j = randomIndex (rs 2) n
      in if rs 0 < 0.5 \<and> n = 0 then Inl TypeError
         else
           (let g' = (if rs 0 < 0.5 then swap g i j
                      else (let start = min i j; end = max i j;
                                segment = rev (take (end + 1 - start) (drop start g))
                            in take start g @ segment @ drop (end + 1) g));
                d = calculateTotalDistanceWithMatrix g' dm
            in Inr (\<lparr>genes = g', fitness = d, distance = d\<rparr>, drop_rng 3 rs)))"

text \<open>
  The greedy replacement used by the employed and the onlooker phase on source \<open>i\<close>: the
  state is the array of sources, the array of trial counters and the random source.
\<close>

type_synonym colony = "Chromosome list \<times> nat list \<times> rng"

definition greedyStep :: "real list list \<Rightarrow> nat \<Rightarrow> colony \<Rightarrow> error + colony" where
  "greedyStep dm i st =
     (case st of (sources, trials, rs) \<Rightarrow>
        (case generateNeighborSolution dm (sources ! i) rs of
           Inl e \<Rightarrow> Inl e
         | Inr (newSolution, rs') \<Rightarrow>
             if distance newSolution < distance (sources ! i)
             then Inr (sources[i := newSolution], trials[i := 0], rs')
             else Inr (sources, trials[i := trials ! i + 1], rs')))"

fun employedLoop :: "real list list \<Rightarrow> nat list \<Rightarrow> colony \<Rightarrow> error + colony" where
  "employedLoop dm [] st = Inr st"
| "employedLoop dm (i # rest) st =
     (case greedyStep dm i st of Inl e \<Rightarrow> Inl e | Inr st' \<Rightarrow> employedLoop dm rest st')"

definition employedBeePhase :: "real list list \<Rightarrow> colony \<Rightarrow> error + colony" where
  "employedBeePhase dm st = employedLoop dm [0 ..< length (fst st)] st"

definition calculateFitnessProbabilities :: "Chromosome list \<Rightarrow> real list" where
  "calculateFitnessProbabilities sources =
     (let maxDistance = Max (set (map distance sources));
          fitnesses = map (\<lambda>s. maxDistance - distance s + 1) sources;
          totalFitness = sum_list fitnesses
      in map (\<lambda>f. f / totalFitness) fitnesses)"

text \<open>
  The loop \<open>while (t < foodSources.length)\<close> of the onlooker phase: one draw per visit of
  a source, and \<open>t\<close> advances only when the draw is below the probability of the source,
  so the loop has no bound.
\<close>

partial_function (option) onlookerLoop ::
  "real list list \<Rightarrow> real list \<Rightarrow> nat \<Rightarrow> nat \<Rightarrow> colony \<Rightarrow> (error + colony) option" where
  "onlookerLoop dm probabilities t i st =
     (if t < length (fst st) then
        (if (snd (snd st)) 0 < probabilities ! i then
           (case greedyStep dm i (fst st, fst (snd st), drop_rng 1 (snd (snd st))) of
              Inl e \<Rightarrow> Some (Inl e)
            | Inr st' \<Rightarrow> onlookerLoop dm probabilities (t + 1) ((i + 1) mod length (fst st')) st')
         else onlookerLoop dm probabilities t ((i + 1) mod length (fst st))
                (fst st, fst (snd st), drop_rng 1 (snd (snd st))))
      else Some (Inr st))"

declare onlookerLoop.simps [code]

definition onlookerBeePhase :: "real list list \<Rightarrow> colony \<Rightarrow> (error + colony) option" where
  "onlookerBeePhase dm st =
     onlookerLoop dm (calculateFitnessProbabilities (fst st)) 0 0 st"

fun scoutLoop :: "nat \<Rightarrow> real list list \<Rightarrow> nat \<Rightarrow> nat list \<Rightarrow> colony \<Rightarrow> colony" where
  "scoutLoop cityCount dm limit [] st = st"
| "scoutLoop cityCount dm limit (i # rest) st =
     (case st of (sources, trials, rs) \<Rightarrow>
        if trials ! i \<ge> limit then
          (let (fresh, rs') = createRandomChromosome cityCount dm rs
           in scoutLoop cityCount dm limit rest (sources[i := fresh], trials[i := 0], rs'))
        else scoutLoop cityCount dm limit rest st)"

definition scoutBeePhase :: "nat \<Rightarrow> real list list \<Rightarrow> nat \<Rightarrow> colony \<Rightarrow> colony" where
  "scoutBeePhase cityCount dm limit st = scoutLoop cityCount dm limit [0 ..< length (fst st)] st"

definition ABCTSP_getPopulation :: "ABCTSP \<Rightarrow> ABCTSP \<times> Population" where
  "ABCTSP_getPopulation st =
     (let srt = sortByDistance (abc_foodSources st)
      in (st\<lparr>abc_foodSources := srt\<rparr>,
          \<lparr>chromosomes = srt,
           generation = abc_currentGeneration st,
           best = nth_opt srt 0,
           worst = (if srt = [] then None else nth_opt srt (length srt - 1)),
           average = averageDistanceOf srt,
           diversity = calculateDiversity srt\<rparr>))"

definition ABCTSP_runGeneration ::
  "ABCTSP \<Rightarrow> real \<Rightarrow> rng \<Rightarrow> (error + (ABCTSP \<times> Population \<times> rng)) option" where
  "ABCTSP_runGeneration st elapsed rs =
     (let dm = abc_distanceMatrix st
      in case employedBeePhase dm (abc_foodSources st, abc_trials st, rs) of
           Inl e \<Rightarrow> Some (Inl e)
         | Inr st1 \<Rightarrow>
             (case onlookerBeePhase dm st1 of
                None \<Rightarrow> None
              | Some (Inl e) \<Rightarrow> Some (Inl e)
              | Some (Inr st2) \<Rightarrow>
                  (case scoutBeePhase (length (abc_cities st)) dm (abc_limit st) st2 of
                     (sources, trials, rs') \<Rightarrow>
                       (case ABCTSP_updateStats
                               (st\<lparr>abc_foodSources := sources, abc_trials := trials,
                                    abc_currentGeneration := abc_currentGeneration st + 1\<rparr>)
                               elapsed of
                          Inl e \<Rightarrow> Some (Inl e)
                        | Inr st3 \<Rightarrow>
                            (let (st4, population) = ABCTSP_getPopulation st3
                             in Some (Inr (st4, population, rs')))))))"

text \<open>
  \<open>k\<close> calls of \<open>runGeneration\<close> of the bee colony in sequence; \<open>elapsed i\<close> is the time the
  \<open>i\<close>-th call measures.
\<close>

fun ABCTSP_generations ::
  "nat \<Rightarrow> ABCTSP \<Rightarrow> (nat \<Rightarrow> real) \<Rightarrow> rng \<Rightarrow> (error + (ABCTSP \<times> rng)) option" where
  "ABCTSP_generations 0 st elapsed rs = Some (Inr (st, rs))"
| "ABCTSP_generations (Suc k) st elapsed rs =
     (case ABCTSP_runGeneration st (elapsed 0) rs of
        None \<Rightarrow> None
      | Some (Inl e) \<Rightarrow> Some (Inl e)
      | Some (Inr (st', population, rs')) \<Rightarrow>
          ABCTSP_generations k st' (\<lambda>i. elapsed (Suc i)) rs')"

section \<open>Example inputs\<close>

text \<open>
  Concrete inputs for the evaluated instances: random sources that repeat one draw or
  replay a list of draws, the parameters \<open>DEFAULT_PARAMS\<close> of the source, the same with a
  population of two and one elite, and small point
  sets (a 3-4-5 triangle, two points, and the square of side 10).
\<close>

definition constDraws :: "real \<Rightarrow> rng" where
  "constDraws r = (\<lambda>k. r)"

definition listDraws :: "real list \<Rightarrow> rng" where
  "listDraws ds = (\<lambda>k. if k < length ds then ds ! k else 0)"

definition DEFAULT_PARAMS :: AlgorithmParams where
  "DEFAULT_PARAMS =
     \<lparr>populationSize = 100, maxGenerations = 100, eliteCount = 2,
      PfitMax = 0.76, PfitMin = 0.0657, PsMax = 0.5446, PsMin = 0.1607,
      betaParam = 0.292, PJGParam = 0.6464, qParam = 19\<rparr>"

definition smallParams :: AlgorithmParams where
  "smallParams = DEFAULT_PARAMS\<lparr>populationSize := 2, eliteCount := 1\<rparr>"

definition triangle :: "City list" where
  "triangle = [\<lparr>city_id = 0, city_x = 0, city_y = 0\<rparr>,
               \<lparr>city_id = 1, city_x = 3, city_y = 0\<rparr>,
               \<lparr>city_id = 2, city_x = 3, city_y = 4\<rparr>]"

definition twoPoints :: "City list" where
  "twoPoints = [\<lparr>city_id = 0, city_x = 0, city_y = 0\<rparr>,
                \<lparr>city_id = 1, city_x = 3, city_y = 4\<rparr>]"

definition square10 :: "City list" where
  "square10 = [\<lparr>city_id = 0, city_x = 0, city_y = 0\<rparr>,
               \<lparr>city_id = 1, city_x = 0, city_y = 10\<rparr>,
               \<lparr>city_id = 2, city_x = 10, city_y = 10\<rparr>,
               \<lparr>city_id = 3, city_x = 10, city_y = 0\<rparr>]"

text \<open>
  The distance matrix of the triangle, and the state of the driver after \<open>initialize()\<close> on
  the triangle with the small parameters when every draw is \<open>0.9\<close>: the shuffle then leaves
  the identity tour, of length \<open>3 + 4 + 5\<close>.
\<close>

definition triangleMatrix :: "real list list" where
  "triangleMatrix = [[0, 3, 5], [3, 0, 4], [5, 4, 0]]"

definition triangleState :: GAJGHO where
  "triangleState =
     \<lparr>jg_cities = triangle, jg_params = smallParams, jg_distanceMatrix = triangleMatrix,
      jg_currentPopulation = [\<lparr>genes = [0, 1, 2], fitness = 12, distance = 12\<rparr>,
                              \<lparr>genes = [0, 1, 2], fitness = 12, distance = 12\<rparr>],
      jg_generation = 0, jg_startTime = 0\<rparr>"

text \<open>The initial state of the store, and the store after two points were added.\<close>

definition initialStore :: AlgorithmStore where
  "initialStore =
     \<lparr>store_cities = [], store_params = DEFAULT_PARAMS, algorithm = None,
      isRunning = False, isPaused = False, currentGeneration = 0,
      currentPopulation = None, history = []\<rparr>"

definition twoPointStore :: AlgorithmStore where
  "twoPointStore = initialStore\<lparr>store_cities := twoPoints\<rparr>"

definition noPopulationParams :: AlgorithmParams where
  "noPopulationParams = DEFAULT_PARAMS\<lparr>populationSize := 0\<rparr>"

section \<open>Specification predicates\<close>

text \<open>
  Member \<open>i\<close> of a population is a later duplicate when its gene sequence occurs at an
  earlier index; \<open>duplicatesBefore population i\<close> counts the later duplicates at the
  indices below \<open>i\<close>.
\<close>

definition laterDuplicate :: "Chromosome list \<Rightarrow> nat \<Rightarrow> bool" where
  "laterDuplicate population i = (genes (population ! i) \<in> set (map genes (take i population)))"

definition duplicatesBefore :: "Chromosome list \<Rightarrow> nat \<Rightarrow> nat" where
  "duplicatesBefore population i = length (filter (laterDuplicate population) [0 ..< i])"

text \<open>
  The replacement that the unique operator builds when the random source stands at \<open>rs\<close>:
  the tour that \<open>generateRandomChromosome\<close> produces from \<open>rs\<close>, with \<open>fitness\<close> and
  \<open>distance\<close> \<open>0\<close>.
\<close>

definition freshTour :: "nat \<Rightarrow> rng \<Rightarrow> Chromosome" where
  "freshTour cityCount rs =
     \<lparr>genes = fst (generateRandomChromosome cityCount rs), fitness = 0, distance = 0\<rparr>"

text \<open>Twelve draws for four generated tours on four cities.\<close>

definition twelveDraws :: rng where
  "twelveDraws = listDraws [0, 0, 0, 1 / 2, 1 / 2, 1 / 2, 9 / 10, 1 / 10, 6 / 10, 3 / 10, 7 / 10, 2 / 10]"

text \<open>
  No improving 2-opt move remains in a tour: for every pair \<open>i < j\<close> of positions the edges
  \<open>(i, j)\<close> and \<open>(i + 1, (j + 1) mod n)\<close> are not strictly shorter in sum than the edges
  \<open>(i, i + 1)\<close> and \<open>(j, (j + 1) mod n)\<close>.
\<close>

definition twoOptOptimal :: "real list list \<Rightarrow> nat list \<Rightarrow> bool" where
  "twoOptOptimal dm g =
     (\<forall>j<length g. \<forall>i<j.
        \<not> dm ! (g ! i) ! (g ! j) + dm ! (g ! (i + 1)) ! (g ! ((j + 1) mod length g))
          < dm ! (g ! i) ! (g ! (i + 1)) + dm ! (g ! j) ! (g ! ((j + 1) mod length g)))"

text \<open>The length of an open path: the sum over its consecutive pairs of cities.\<close>

fun pathLength :: "real list list \<Rightarrow> nat list \<Rightarrow> real" where
  "pathLength dm [] = 0"
| "pathLength dm [a] = 0"
| "pathLength dm (a # b # rest) = dm ! a ! b + pathLength dm (b # rest)"

text \<open>The pairs that one pass of 2-opt tests, in the order of the scan.\<close>

definition scanPairs :: "nat \<Rightarrow> (nat \<times> nat) list" where
  "scanPairs n = concat (map (\<lambda>i. map (\<lambda>j. (i, j)) [i + 1 ..< n]) [0 ..< n - 1])"

text \<open>The test of the scan at the pair \<open>(i, j)\<close>: the exchange is strictly shorter.\<close>

definition improving :: "real list list \<Rightarrow> nat list \<Rightarrow> nat \<Rightarrow> nat \<Rightarrow> bool" where
  "improving dm g i j \<longleftrightarrow>
     dm ! (g ! i) ! (g ! j) + dm ! (g ! (i + 1)) ! (g ! ((j + 1) mod length g))
       < dm ! (g ! i) ! (g ! (i + 1)) + dm ! (g ! j) ! (g ! ((j + 1) mod length g))"

text \<open>
  The order in which the loop \<open>while (improved)\<close> descends: a rearrangement of the same
  cities with a strictly smaller cyclic length.
\<close>

definition shorterTour :: "real list list \<Rightarrow> (nat list \<times> nat list) set" where
  "shorterTour dm =
     {(g', g). mset g' = mset g \<and>
               calculateTotalDistanceWithMatrix g' dm < calculateTotalDistanceWithMatrix g dm}"

text \<open>The distance matrix of four points on a line at unit spacing.\<close>

definition lineMatrix :: "real list list" where
  "lineMatrix = [[0, 1, 2, 3], [1, 0, 1, 2], [2, 1, 0, 1], [3, 2, 1, 0]]"

text \<open>The minimum tour length recorded in a (non-empty) population.\<close>

definition bestLength :: "Chromosome list \<Rightarrow> real" where
  "bestLength cs = Min (set (map distance cs))"

text \<open>
  Four points on a line at unit spacing, and a state of the standard genetic algorithm on
  them with two tours, of lengths \<open>8\<close> and \<open>6\<close>.
\<close>

definition linePoints :: "City list" where
  "linePoints = [\<lparr>city_id = 0, city_x = 0, city_y = 0\<rparr>,
                 \<lparr>city_id = 1, city_x = 1, city_y = 0\<rparr>,
                 \<lparr>city_id = 2, city_x = 2, city_y = 0\<rparr>,
                 \<lparr>city_id = 3, city_x = 3, city_y = 0\<rparr>]"

definition lineGA :: StandardGA where
  "lineGA =
     \<lparr>sga_cities = linePoints, sga_params = smallParams, sga_distanceMatrix = lineMatrix,
      sga_population = [\<lparr>genes = [0, 2, 1, 3], fitness = 8, distance = 8\<rparr>,
                        \<lparr>genes = [0, 1, 2, 3], fitness = 6, distance = 6\<rparr>],
      sga_currentGeneration = 0, sga_stats = []\<rparr>"

text \<open>The default parameters with a population of four, which gives a colony of two sources.\<close>

definition colonyParams :: AlgorithmParams where
  "colonyParams = DEFAULT_PARAMS\<lparr>populationSize := 4\<rparr>"

text \<open>
  The state of the standard genetic algorithm on the four points of the line after the
  constructor and \<open>initialize()\<close> when every draw is \<open>0.1\<close>: each shuffle gives the tour
  \<open>1, 2, 3, 0\<close> of length \<open>6\<close>.
\<close>

definition lineGA1 :: StandardGA where
  "lineGA1 =
     \<lparr>sga_cities = linePoints, sga_params = smallParams, sga_distanceMatrix = lineMatrix,
      sga_population = [\<lparr>genes = [1, 2, 3, 0], fitness = 6, distance = 6\<rparr>,
                        \<lparr>genes = [1, 2, 3, 0], fitness = 6, distance = 6\<rparr>],
      sga_currentGeneration = 0,
      sga_stats = [\<lparr>stat_generation = 0, bestDistance = 6, averageDistance = 6,
                    worstDistance = 6, stat_diversity = 1 / 2, elapsedTime = 0\<rparr>]\<rparr>"

text \<open>
  Draws for the bee colony on the four points of the line: six draws of \<open>0.6\<close>, with which
  \<open>initialize()\<close> builds the tour \<open>0, 3, 1, 2\<close> of length \<open>8\<close> twice; then a swap of the
  positions \<open>1\<close> and \<open>2\<close>, which shortens the first source to length \<open>6\<close>, and a reversal
  of one position, which leaves the second source as it is; every later draw is \<open>0\<close>.
  \<open>lineColony0\<close> is the state after the constructor and \<open>initialize()\<close> on these draws.
\<close>

definition colonyDraws :: rng where
  "colonyDraws = listDraws [6 / 10, 6 / 10, 6 / 10, 6 / 10, 6 / 10, 6 / 10,
                            1 / 10, 3 / 10, 6 / 10, 9 / 10, 0, 0]"

definition lineColony0 :: ABCTSP where
  "lineColony0 =
     \<lparr>abc_cities = linePoints, abc_params = colonyParams, abc_distanceMatrix = lineMatrix,
      abc_foodSources = [\<lparr>genes = [0, 3, 1, 2], fitness = 8, distance = 8\<rparr>,
                         \<lparr>genes = [0, 3, 1, 2], fitness = 8, distance = 8\<rparr>],
      abc_trials = [0, 0], abc_currentGeneration = 0, abc_limit = 8,
      abc_stats = [\<lparr>stat_generation = 0, bestDistance = 8, averageDistance = 8,
                    worstDistance = 8, stat_diversity = 1 / 2, elapsedTime = 0\<rparr>]\<rparr>"

text \<open>
  A greedy phase of the bee colony replaces sources in place: the array keeps its length,
  and each position holds the source it held before or a strictly shorter one.
\<close>

definition improvedInPlace :: "Chromosome list \<Rightarrow> Chromosome list \<Rightarrow> bool" where
  "improvedInPlace before after =
     (length after = length before \<and>
      (\<forall>k<length before. after ! k = before ! k \<or> distance (after ! k) < distance (before ! k)))"

text \<open>An example member: the tour \<open>0, ..., n - 1\<close> with a recorded length of \<open>7\<close>.\<close>

definition identityTour :: "nat \<Rightarrow> Chromosome" where
  "identityTour n = \<lparr>genes = [0 ..< n], fitness = 7, distance = 7\<rparr>"

text \<open>The running sum of the fitness values up to and including index \<open>i\<close>.\<close>

definition cumulativeFitness :: "real list \<Rightarrow> nat \<Rightarrow> real" where
  "cumulativeFitness fitnessValues i = sum_list (take (Suc i) fitnessValues)"

text \<open>A second example member: the tour \<open>n - 1, ..., 0\<close> with a recorded length of \<open>9\<close>.\<close>

definition reversedTour :: "nat \<Rightarrow> Chromosome" where
  "reversedTour n = \<lparr>genes = rev [0 ..< n], fitness = 9, distance = 9\<rparr>"

section \<open>Verified properties\<close>

subsection \<open>The distance matrix\<close>

lemma setEntry_square: "square n m \<Longrightarrow> square n (setEntry m i j v)"
  by (cases "i < length m") (auto simp: square_def setEntry_def nth_list_update)

lemma setEntry_nth:
  "square n m \<Longrightarrow> i < n \<Longrightarrow> j < n \<Longrightarrow> a < n \<Longrightarrow> b < n \<Longrightarrow>
   setEntry m i j v ! a ! b = (if a = i \<and> b = j then v else m ! a ! b)"
  by (auto simp: square_def setEntry_def nth_list_update)

lemma buildRow_upto:
  fixes cs :: "City list"
  assumes "square n m" "i < n" "k \<le> n"
  defines "f \<equiv> (\<lambda>j m. let dist = calculateDistance (cs ! i) (cs ! j)
                  in setEntry (setEntry m i j dist) j i dist)"
  shows "square n (fold f [i + 1 ..< k] m) \<and>
     (\<forall>a<n. \<forall>b<n. fold f [i + 1 ..< k] m ! a ! b =
        (if (a = i \<and> i < b \<and> b < k) \<or> (b = i \<and> i < a \<and> a < k)
         then calculateDistance (cs ! i) (cs ! (max a b)) else m ! a ! b))"
  using assms(3)
proof (induction k)
  case 0
  then show ?case using assms(1) by simp
next
  case (Suc k)
  show ?case
  proof (cases "i + 1 \<le> k")
    case False
    then show ?thesis using assms(1) by auto
  next
    case True
    then have up: "[i + 1 ..< Suc k] = [i + 1 ..< k] @ [k]" by simp
    have kn: "k < n" using Suc.prems by simp
    from Suc have IH: "square n (fold f [i + 1 ..< k] m)"
      "\<And>a b. a < n \<Longrightarrow> b < n \<Longrightarrow> fold f [i + 1 ..< k] m ! a ! b =
        (if (a = i \<and> i < b \<and> b < k) \<or> (b = i \<and> i < a \<and> a < k)
         then calculateDistance (cs ! i) (cs ! (max a b)) else m ! a ! b)"
      by auto
    define M where "M = fold f [i + 1 ..< k] m"
    define D where "D = calculateDistance (cs ! i) (cs ! k)"
    have fk: "f k M = setEntry (setEntry M i k D) k i D"
      by (simp add: f_def Let_def D_def)
    have sqM: "square n M" using IH(1) by (simp add: M_def)
    have sq1: "square n (setEntry M i k D)" using sqM by (rule setEntry_square)
    have sq: "square n (f k M)" unfolding fk using sq1 by (rule setEntry_square)
    have "f k M ! a ! b = (if (a = i \<and> i < b \<and> b < Suc k) \<or> (b = i \<and> i < a \<and> a < Suc k)
         then calculateDistance (cs ! i) (cs ! (max a b)) else m ! a ! b)"
      if "a < n" "b < n" for a b
    proof -
      have e1: "setEntry (setEntry M i k D) k i D ! a ! b =
           (if a = k \<and> b = i then D else setEntry M i k D ! a ! b)"
        by (rule setEntry_nth[OF sq1 kn assms(2) that])
      have e2: "setEntry M i k D ! a ! b = (if a = i \<and> b = k then D else M ! a ! b)"
        by (rule setEntry_nth[OF sqM assms(2) kn that])
      have e: "f k M ! a ! b = (if a = k \<and> b = i then D else if a = i \<and> b = k then D else M ! a ! b)"
        by (simp only: fk e1 e2)
      have m: "M ! a ! b = (if (a = i \<and> i < b \<and> b < k) \<or> (b = i \<and> i < a \<and> a < k)
         then calculateDistance (cs ! i) (cs ! (max a b)) else m ! a ! b)"
        using IH(2)[OF that] by (simp add: M_def)
      show ?thesis unfolding e m using True by (auto simp: D_def max_def)
    qed
    then show ?thesis using sq True by (simp add: M_def)
  qed
qed

lemma buildRow_spec:
  assumes "square n m" "i < n" "n = length cs"
  shows "square n (buildRow cs i m) \<and>
     (\<forall>a<n. \<forall>b<n. buildRow cs i m ! a ! b =
        (if (a = i \<and> i < b) \<or> (b = i \<and> i < a)
         then calculateDistance (cs ! i) (cs ! (max a b)) else m ! a ! b))"
  using buildRow_upto[OF assms(1,2), of n cs] assms(3)
  by (simp add: buildRow_def)

lemma buildRows_upto:
  assumes "n = length cs" "k \<le> n"
  shows "square n (fold (buildRow cs) [0 ..< k] (replicate n (replicate n 0))) \<and>
     (\<forall>a<n. \<forall>b<n. fold (buildRow cs) [0 ..< k] (replicate n (replicate n 0)) ! a ! b =
        (if a \<noteq> b \<and> min a b < k
         then calculateDistance (cs ! (min a b)) (cs ! (max a b)) else 0))"
  using assms(2)
proof (induction k)
  case 0
  then show ?case by (simp add: square_def)
next
  case (Suc k)
  define M where "M = fold (buildRow cs) [0 ..< k] (replicate n (replicate n 0))"
  from Suc have sqM: "square n M" and
    IH: "\<And>a b. a < n \<Longrightarrow> b < n \<Longrightarrow> M ! a ! b =
        (if a \<noteq> b \<and> min a b < k
         then calculateDistance (cs ! (min a b)) (cs ! (max a b)) else 0)"
    by (auto simp: M_def)
  have kn: "k < n" using Suc.prems by simp
  note R = buildRow_spec[OF sqM kn assms(1)]
  have "buildRow cs k M ! a ! b = (if a \<noteq> b \<and> min a b < Suc k
         then calculateDistance (cs ! (min a b)) (cs ! (max a b)) else 0)"
    if "a < n" "b < n" for a b
    using R that IH[OF that] by (auto simp: min_def max_def)
  then show ?case using R by (simp add: M_def)
qed

lemma calculateDistance_commute: "calculateDistance a b = calculateDistance b a"
proof -
  have "(u - v) * (u - v) = (v - u) * (v - u)" for u v :: real by algebra
  then show ?thesis by (simp add: calculateDistance_def Let_def)
qed

text \<open>
  Claim C8. For every list of \<open>n\<close> points \<open>buildDistanceMatrix\<close> returns \<open>n\<close> rows of \<open>n\<close>
  entries; for all indices \<open>i\<close> and \<open>j\<close> the entries \<open>[i][j]\<close> and \<open>[j][i]\<close> are equal, the
  diagonal entry \<open>[i][i]\<close> is \<open>0\<close>, and every off-diagonal entry is the Euclidean distance
  between the points \<open>i\<close> and \<open>j\<close>.
\<close>

theorem buildDistanceMatrix_spec:
  "length (buildDistanceMatrix cs) = length cs \<and>
   (\<forall>i<length cs.
      length (buildDistanceMatrix cs ! i) = length cs \<and>
      buildDistanceMatrix cs ! i ! i = 0 \<and>
      (\<forall>j<length cs.
         buildDistanceMatrix cs ! i ! j = buildDistanceMatrix cs ! j ! i \<and>
         (i \<noteq> j \<longrightarrow>
            buildDistanceMatrix cs ! i ! j =
              sqrt ((city_x (cs ! i) - city_x (cs ! j))\<^sup>2 + (city_y (cs ! i) - city_y (cs ! j))\<^sup>2))))"
proof -
  define n where "n = length cs"
  note B = buildRows_upto[OF n_def order_refl]
  have M: "buildDistanceMatrix cs = fold (buildRow cs) [0 ..< n] (replicate n (replicate n 0))"
    by (simp add: buildDistanceMatrix_def n_def Let_def)
  have sq: "square n (buildDistanceMatrix cs)" using B by (simp add: M)
  have E: "buildDistanceMatrix cs ! a ! b =
      (if a \<noteq> b then calculateDistance (cs ! (min a b)) (cs ! (max a b)) else 0)"
    if "a < n" "b < n" for a b
    using B that by (simp add: M min_def)
  have D: "calculateDistance (cs ! (min a b)) (cs ! (max a b)) =
       sqrt ((city_x (cs ! a) - city_x (cs ! b))\<^sup>2 + (city_y (cs ! a) - city_y (cs ! b))\<^sup>2)" for a b
  proof (cases "a \<le> b")
    case True
    then show ?thesis by (simp add: calculateDistance_def Let_def power2_eq_square min_def max_def)
  next
    case False
    then have "calculateDistance (cs ! (min a b)) (cs ! (max a b)) = calculateDistance (cs ! b) (cs ! a)"
      by (simp add: min_def max_def)
    also have "\<dots> = calculateDistance (cs ! a) (cs ! b)" by (rule calculateDistance_commute)
    finally show ?thesis by (simp add: calculateDistance_def Let_def power2_eq_square)
  qed
  have S: "buildDistanceMatrix cs ! a ! b = buildDistanceMatrix cs ! b ! a" if "a < n" "b < n" for a b
    using E[OF that] E[OF that(2,1)] by (simp add: min.commute max.commute)
  show ?thesis
    using sq E S D unfolding n_def[symmetric] square_def by simp
qed

theorem buildDistanceMatrix_spec_witness:
  "buildDistanceMatrix [\<lparr>city_id = 0, city_x = 0, city_y = 0\<rparr>, \<lparr>city_id = 1, city_x = 3, city_y = 4\<rparr>] ! 0 ! 1 = 5 \<and>
   buildDistanceMatrix [\<lparr>city_id = 0, city_x = 0, city_y = 0\<rparr>, \<lparr>city_id = 1, city_x = 3, city_y = 4\<rparr>] ! 1 ! 0 = 5 \<and>
   buildDistanceMatrix [\<lparr>city_id = 0, city_x = 0, city_y = 0\<rparr>, \<lparr>city_id = 1, city_x = 3, city_y = 4\<rparr>] ! 0 ! 0 = 0"
proof -
  let ?cs = "[\<lparr>city_id = 0, city_x = 0, city_y = 0\<rparr>, \<lparr>city_id = 1, city_x = 3, city_y = 4\<rparr>]"
  have s: "sqrt 25 = 5" by (rule real_sqrt_unique) simp_all
  have i0: "(0::nat) < length ?cs" and i1: "(1::nat) < length ?cs" by simp_all
  from buildDistanceMatrix_spec[of ?cs] i0 i1
  have "buildDistanceMatrix ?cs ! 0 ! 0 = 0"
    and "buildDistanceMatrix ?cs ! 0 ! 1 = buildDistanceMatrix ?cs ! 1 ! 0"
    and "buildDistanceMatrix ?cs ! 0 ! 1 = sqrt ((city_x (?cs ! 0) - city_x (?cs ! 1))\<^sup>2 + (city_y (?cs ! 0) - city_y (?cs ! 1))\<^sup>2)"
    by auto
  then show ?thesis using s by simp
qed

subsection \<open>Random draws, shuffling and initialization\<close>

lemma randomIndex_less: "0 \<le> r \<Longrightarrow> r < 1 \<Longrightarrow> 0 < m \<Longrightarrow> randomIndex r m < m"
proof -
  assume a: "0 \<le> r" "r < 1" "0 < m"
  have "r * real m < real m" using a by simp
  then have "\<lfloor>r * real m\<rfloor> < int m" by (simp add: floor_less_iff)
  moreover have "0 \<le> \<lfloor>r * real m\<rfloor>" using a by simp
  ultimately show ?thesis unfolding randomIndex_def by linarith
qed

lemma valid_rng_drop: "valid_rng rs \<Longrightarrow> valid_rng (drop_rng k rs)"
  by (simp add: valid_rng_def drop_rng_def)

lemma valid_rng_nth: "valid_rng rs \<Longrightarrow> 0 \<le> rs k \<and> rs k < 1"
  by (simp add: valid_rng_def)

lemma mset_swap': "i < length xs \<Longrightarrow> j < length xs \<Longrightarrow> mset (swap xs i j) = mset xs"
  by (simp add: swap_def mset_swap)

lemma length_swap [simp]: "length (swap xs i j) = length xs"
  by (simp add: swap_def)

lemma shuffleFrom_mset:
  "valid_rng rs \<Longrightarrow> k < length g \<or> k = 0 \<Longrightarrow> mset (fst (shuffleFrom k g rs)) = mset g"
proof (induction k arbitrary: g rs)
  case 0
  then show ?case by simp
next
  case (Suc k)
  then have kl: "Suc k < length g" by auto
  have j: "randomIndex (rs 0) (Suc k + 1) < Suc k + 1"
    using valid_rng_nth[OF Suc.prems(1), of 0] by (intro randomIndex_less) auto
  have "mset (fst (shuffleFrom k (swap g (Suc k) (randomIndex (rs 0) (Suc k + 1))) (drop_rng 1 rs)))
        = mset (swap g (Suc k) (randomIndex (rs 0) (Suc k + 1)))"
    using kl by (intro Suc.IH valid_rng_drop Suc.prems(1)) simp
  also have "\<dots> = mset g" using kl j by (intro mset_swap') auto
  finally show ?case by (simp add: Let_def)
qed

lemma generateRandomChromosome_perm:
  "valid_rng rs \<Longrightarrow> isPermutation n (fst (generateRandomChromosome n rs))"
  unfolding isPermutation_def generateRandomChromosome_def
  by (cases n) (simp_all add: shuffleFrom_mset)

lemma shuffleFrom_valid: "valid_rng rs \<Longrightarrow> valid_rng (snd (shuffleFrom k g rs))"
  by (induction k arbitrary: g rs) (simp_all add: Let_def valid_rng_drop)

lemma generateRandomChromosome_valid:
  "valid_rng rs \<Longrightarrow> valid_rng (snd (generateRandomChromosome n rs))"
  by (simp add: generateRandomChromosome_def shuffleFrom_valid)

lemma initializePopulation_spec:
  "valid_rng rs \<Longrightarrow>
   length (fst (initializePopulation cs k rs)) = k \<and>
   (\<forall>c \<in> set (fst (initializePopulation cs k rs)). isPermutation (length cs) (genes c)) \<and>
   valid_rng (snd (initializePopulation cs k rs))"
proof (induction k arbitrary: rs)
  case 0
  then show ?case by simp
next
  case (Suc k)
  obtain g rs1 where g: "generateRandomChromosome (length cs) rs = (g, rs1)" by fastforce
  obtain rest rs2 where r: "initializePopulation cs k rs1 = (rest, rs2)" by fastforce
  have v1: "valid_rng rs1" using generateRandomChromosome_valid[OF Suc.prems, of "length cs"] g by simp
  have p: "isPermutation (length cs) g" using generateRandomChromosome_perm[OF Suc.prems, of "length cs"] g by simp
  from Suc.IH[OF v1] r have "length rest = k" "\<forall>c\<in>set rest. isPermutation (length cs) (genes c)" "valid_rng rs2"
    by auto
  then show ?case using g r p by (simp add: createChromosome_def Let_def)
qed

subsection \<open>Snapshots of the GA-JGHO driver\<close>

lemma sortByDistance_length [simp]: "length (sortByDistance cs) = length cs"
  by (simp add: sortByDistance_def)

lemma sortByDistance_set [simp]: "set (sortByDistance cs) = set cs"
  by (simp add: sortByDistance_def)

lemma sortByDistance_Nil [simp]: "sortByDistance cs = [] \<longleftrightarrow> cs = []"
  using sortByDistance_length[of cs] by (metis length_0_conv)

lemma GAJGHO_initialize_population:
  "valid_rng rs \<Longrightarrow>
   length (jg_currentPopulation (fst (GAJGHO_initialize st now rs))) = populationSize (jg_params st) \<and>
   (\<forall>c \<in> set (jg_currentPopulation (fst (GAJGHO_initialize st now rs))).
      isPermutation (length (jg_cities st)) (genes c)) \<and>
   jg_generation (fst (GAJGHO_initialize st now rs)) = 0"
  using initializePopulation_spec[of rs "jg_cities st" "populationSize (jg_params st)"]
  by (simp add: GAJGHO_initialize_def split_beta)

lemma initializePopulation_length: "length (fst (initializePopulation cs k rs)) = k"
  by (induction k arbitrary: rs) (simp_all add: split_beta Let_def)

lemma GAJGHO_initialize_length:
  "length (jg_currentPopulation (fst (GAJGHO_initialize st now rs))) = populationSize (jg_params st)"
  by (simp add: GAJGHO_initialize_def split_beta initializePopulation_length)

lemma getPopulation_empty:
  "jg_currentPopulation st = [] \<Longrightarrow>
   best (GAJGHO_getPopulation st) = None \<and> worst (GAJGHO_getPopulation st) = None \<and>
   average (GAJGHO_getPopulation st) = None \<and> diversity (GAJGHO_getPopulation st) = None \<and>
   GAJGHO_getStats st now = Inl TypeError"
  by (simp add: GAJGHO_getPopulation_def GAJGHO_getStats_def Let_def nth_opt_def
      averageDistanceOf_def calculateDiversity_def sortByDistance_def)

lemma getPopulation_nonempty:
  assumes "jg_currentPopulation st \<noteq> []"
  defines "srt \<equiv> sortByDistance (jg_currentPopulation st)"
  shows "0 < length srt \<and> length srt - 1 < length srt \<and>
   best (GAJGHO_getPopulation st) = Some (srt ! 0) \<and>
   worst (GAJGHO_getPopulation st) = Some (srt ! (length srt - 1)) \<and>
   average (GAJGHO_getPopulation st) = Some ((\<Sum>chr\<leftarrow>srt. distance chr) / real (length srt)) \<and>
   diversity (GAJGHO_getPopulation st) =
     Some (real (length (remdups (map genes (jg_currentPopulation st)))) /
           real (length (jg_currentPopulation st))) \<and>
   (\<exists>stats. GAJGHO_getStats st now = Inr stats)"
  using assms(1) unfolding srt_def
  by (simp add: GAJGHO_getPopulation_def GAJGHO_getStats_def Let_def nth_opt_def
      averageDistanceOf_def calculateDiversity_def)

text \<open>
  Claim C10. \<open>GAJGHO.getPopulation()\<close> and \<open>getStats()\<close> need a non-empty current
  population. In the state left by the constructor (before \<open>initialize()\<close>) and in the state
  left by \<open>reset()\<close> the population is empty: the reads of element \<open>0\<close> and of the last
  element of the sorted array give \<open>undefined\<close>, both divisions are \<open>0 / 0\<close>, and \<open>getStats\<close>
  throws, so there is no valid snapshot. After \<open>initialize()\<close> with \<open>populationSize \<ge> 1\<close>
  the sorted array has \<open>populationSize > 0\<close> members, the two reads are in bounds, the
  divisions are by that positive count, and \<open>getStats\<close> returns.
\<close>

theorem snapshot_needs_population:
  "(let st0 = newGAJGHO cs ps now
    in best (GAJGHO_getPopulation st0) = None \<and> worst (GAJGHO_getPopulation st0) = None \<and>
       average (GAJGHO_getPopulation st0) = None \<and> diversity (GAJGHO_getPopulation st0) = None \<and>
       GAJGHO_getStats st0 now' = Inl TypeError) \<and>
   (let st0 = GAJGHO_reset st now
    in best (GAJGHO_getPopulation st0) = None \<and> worst (GAJGHO_getPopulation st0) = None \<and>
       average (GAJGHO_getPopulation st0) = None \<and> diversity (GAJGHO_getPopulation st0) = None \<and>
       GAJGHO_getStats st0 now' = Inl TypeError) \<and>
   (1 \<le> populationSize (jg_params st) \<longrightarrow>
      (let st1 = fst (GAJGHO_initialize st now rs);
           srt = sortByDistance (jg_currentPopulation st1)
       in length srt = populationSize (jg_params st) \<and>
          0 < length srt \<and> length srt - 1 < length srt \<and>
          best (GAJGHO_getPopulation st1) = Some (srt ! 0) \<and>
          worst (GAJGHO_getPopulation st1) = Some (srt ! (length srt - 1)) \<and>
          average (GAJGHO_getPopulation st1) =
            Some ((\<Sum>chr\<leftarrow>srt. distance chr) / real (length srt)) \<and>
          diversity (GAJGHO_getPopulation st1) =
            Some (real (length (remdups (map genes (jg_currentPopulation st1)))) /
                  real (length (jg_currentPopulation st1))) \<and>
          (\<exists>stats. GAJGHO_getStats st1 now' = Inr stats)))"
proof -
  have a: "jg_currentPopulation (newGAJGHO cs ps now) = []" by (simp add: newGAJGHO_def)
  have b: "jg_currentPopulation (GAJGHO_reset st now) = []" by (simp add: GAJGHO_reset_def)
  have c: "(let st1 = fst (GAJGHO_initialize st now rs);
           srt = sortByDistance (jg_currentPopulation st1)
       in length srt = populationSize (jg_params st) \<and>
          0 < length srt \<and> length srt - 1 < length srt \<and>
          best (GAJGHO_getPopulation st1) = Some (srt ! 0) \<and>
          worst (GAJGHO_getPopulation st1) = Some (srt ! (length srt - 1)) \<and>
          average (GAJGHO_getPopulation st1) =
            Some ((\<Sum>chr\<leftarrow>srt. distance chr) / real (length srt)) \<and>
          diversity (GAJGHO_getPopulation st1) =
            Some (real (length (remdups (map genes (jg_currentPopulation st1)))) /
                  real (length (jg_currentPopulation st1))) \<and>
          (\<exists>stats. GAJGHO_getStats st1 now' = Inr stats))"
    if "1 \<le> populationSize (jg_params st)"
  proof -
    have ne: "jg_currentPopulation (fst (GAJGHO_initialize st now rs)) \<noteq> []"
      using GAJGHO_initialize_length[of st now rs] that by auto
    show ?thesis
      using getPopulation_nonempty[OF ne, of now'] GAJGHO_initialize_length[of st now rs] ne
      by (simp add: Let_def)
  qed
  show ?thesis
    using getPopulation_empty[OF a, of now'] getPopulation_empty[OF b, of now'] c
    by (simp add: Let_def)
qed

theorem snapshot_needs_population_witness:
  "1 \<le> populationSize (jg_params (newGAJGHO triangle DEFAULT_PARAMS 0)) \<and>
   length (jg_currentPopulation
             (fst (GAJGHO_initialize (newGAJGHO triangle DEFAULT_PARAMS 0) 0 (constDraws 0)))) = 100 \<and>
   best (GAJGHO_getPopulation
           (fst (GAJGHO_initialize (newGAJGHO triangle DEFAULT_PARAMS 0) 0 (constDraws 0)))) \<noteq> None"
proof -
  have h: "1 \<le> populationSize (jg_params (newGAJGHO triangle DEFAULT_PARAMS 0))"
    by (simp add: newGAJGHO_def DEFAULT_PARAMS_def)
  from snapshot_needs_population[where st = "newGAJGHO triangle DEFAULT_PARAMS 0"
      and now = 0 and rs = "constDraws 0"] h
  show ?thesis by (simp add: Let_def newGAJGHO_def DEFAULT_PARAMS_def)
qed

subsection \<open>Initialization without validation\<close>

lemma valid_constDraws: "0 \<le> r \<Longrightarrow> r < 1 \<Longrightarrow> valid_rng (constDraws r)"
  by (simp add: valid_rng_def constDraws_def)

text \<open>
  Claim C4, as stated, fails: \<open>GAJGHO.initialize()\<close> on two points builds the full
  population of 100 tours, and on a population size of zero it returns with the empty
  population; it has no error exit.
\<close>

theorem initialize_refuses_counterexample:
  "length twoPoints < 3 \<and>
   length (jg_currentPopulation
             (fst (GAJGHO_initialize (newGAJGHO twoPoints DEFAULT_PARAMS 0) 0 (constDraws 0)))) = 100 \<and>
   populationSize noPopulationParams = 0 \<and>
   jg_currentPopulation
     (fst (GAJGHO_initialize (newGAJGHO triangle noPopulationParams 0) 0 (constDraws 0))) = []"
  using GAJGHO_initialize_length[of "newGAJGHO twoPoints DEFAULT_PARAMS 0" 0 "constDraws 0"]
    GAJGHO_initialize_length[of "newGAJGHO triangle noPopulationParams 0" 0 "constDraws 0"]
  by (simp add: twoPoints_def newGAJGHO_def DEFAULT_PARAMS_def noPopulationParams_def)

text \<open>
  Claim C4, amended. \<open>GAJGHO.initialize()\<close> validates neither the number of points nor the
  population size and has no error exit: for every point list and every population size
  it builds exactly \<open>populationSize\<close> tours, each a permutation of the point indices, and
  sets the generation to \<open>0\<close>. The check for fewer than three points is in the store action
  \<open>initializeAlgorithm\<close>, which then writes a warning to the console and returns with the
  store unchanged (no algorithm, no population), without an error.
\<close>

theorem initialize_never_refuses:
  "valid_rng rs \<Longrightarrow>
   (let st' = fst (GAJGHO_initialize st now rs)
    in length (jg_currentPopulation st') = populationSize (jg_params st) \<and>
       (\<forall>c \<in> set (jg_currentPopulation st'). isPermutation (length (jg_cities st)) (genes c)) \<and>
       jg_generation st' = 0) \<and>
   (length (store_cities store) < 3 \<longrightarrow>
      initializeAlgorithm store now rs = Inr (store, [''Need at least 3 cities to run algorithm'']))"
  using GAJGHO_initialize_population[of rs st now]
  by (simp add: Let_def initializeAlgorithm_def)

theorem initialize_never_refuses_witness:
  "valid_rng (constDraws 0) \<and> length (store_cities twoPointStore) < 3 \<and>
   initializeAlgorithm twoPointStore 0 (constDraws 0) =
     Inr (twoPointStore, [''Need at least 3 cities to run algorithm'']) \<and>
   length (jg_currentPopulation
             (fst (GAJGHO_initialize (newGAJGHO twoPoints DEFAULT_PARAMS 0) 0 (constDraws 0)))) = 100"
proof -
  have v: "valid_rng (constDraws 0)" by (simp add: valid_constDraws)
  have l: "length (store_cities twoPointStore) < 3"
    by (simp add: twoPointStore_def twoPoints_def)
  from initialize_never_refuses[OF v, of "newGAJGHO twoPoints DEFAULT_PARAMS 0" 0 twoPointStore] l v
  show ?thesis by (simp add: Let_def newGAJGHO_def DEFAULT_PARAMS_def)
qed

subsection \<open>The unique operator\<close>

lemma drop_rng_drop_rng: "drop_rng a (drop_rng b rs) = drop_rng (a + b) rs"
  by (simp add: drop_rng_def add.assoc)

lemma drop_rng_0: "drop_rng 0 rs = rs"
  by (simp add: drop_rng_def)

lemma shuffleFrom_snd: "snd (shuffleFrom k g rs) = drop_rng k rs"
  by (induction k arbitrary: g rs) (simp_all add: Let_def drop_rng_drop_rng drop_rng_0)

lemma generateRandomChromosome_snd:
  "snd (generateRandomChromosome n rs) = drop_rng (n - 1) rs"
  by (simp add: generateRandomChromosome_def shuffleFrom_snd)

lemma length_filter_upt_Suc:
  "length (filter P [0 ..< Suc i]) =
     (if P 0 then 1 else 0) + length (filter (\<lambda>j. P (Suc j)) [0 ..< i])"
proof -
  have "[0 ..< Suc i] = 0 # map Suc [0 ..< i]"
    by (simp add: upt_conv_Cons map_Suc_upt del: upt_Suc)
  then show ?thesis by (simp add: filter_map comp_def del: upt_Suc)
qed

lemma uniqueLoop_stream:
  "length (fst (uniqueLoop pop cc seen rs)) = length pop \<and>
   snd (uniqueLoop pop cc seen rs) =
     drop_rng (length (filter (\<lambda>j. genes (pop ! j) \<in> seen \<union> set (map genes (take j pop)))
                         [0 ..< length pop]) * (cc - 1)) rs \<and>
   (\<forall>i<length pop.
      (genes (pop ! i) \<notin> seen \<union> set (map genes (take i pop)) \<longrightarrow>
         fst (uniqueLoop pop cc seen rs) ! i = pop ! i) \<and>
      (genes (pop ! i) \<in> seen \<union> set (map genes (take i pop)) \<longrightarrow>
         fst (uniqueLoop pop cc seen rs) ! i =
           freshTour cc
             (drop_rng (length (filter (\<lambda>j. genes (pop ! j) \<in> seen \<union> set (map genes (take j pop)))
                                  [0 ..< i]) * (cc - 1)) rs)))"
proof (induction pop arbitrary: seen rs)
  case Nil
  then show ?case by (simp add: drop_rng_0)
next
  case (Cons c pop)
  show ?case
  proof (cases "genes c \<in> seen")
    case True
    define rs1 where "rs1 = drop_rng (cc - 1) rs"
    have g: "generateRandomChromosome cc rs = (fst (generateRandomChromosome cc rs), rs1)"
      unfolding rs1_def generateRandomChromosome_snd[symmetric] by simp
    have eq: "uniqueLoop (c # pop) cc seen rs =
        (freshTour cc rs # fst (uniqueLoop pop cc seen rs1), snd (uniqueLoop pop cc seen rs1))"
      using True by (subst uniqueLoop.simps, subst g) (simp add: Let_def split_beta freshTour_def)
    have s: "seen \<union> set (map genes (take (Suc i) (c # pop))) = seen \<union> set (map genes (take i pop))" for i
      using True by auto
    have cnt: "length (filter (\<lambda>j. genes ((c # pop) ! j) \<in> seen \<union> set (map genes (take j (c # pop))))
                  [0 ..< Suc i])
        = Suc (length (filter (\<lambda>j. genes (pop ! j) \<in> seen \<union> set (map genes (take j pop))) [0 ..< i]))" for i
    proof -
      have p: "(\<lambda>j. genes ((c # pop) ! Suc j) \<in> seen \<union> set (map genes (take (Suc j) (c # pop))))
          = (\<lambda>j. genes (pop ! j) \<in> seen \<union> set (map genes (take j pop)))"
        by (rule ext) (simp only: s nth_Cons_Suc)
      have z: "genes ((c # pop) ! 0) \<in> seen \<union> set (map genes (take 0 (c # pop)))"
        using True by simp
      show ?thesis by (simp only: length_filter_upt_Suc p z if_True plus_1_eq_Suc)
    qed
    have dr: "drop_rng (k * (cc - 1)) rs1 = drop_rng (Suc k * (cc - 1)) rs" for k
      unfolding rs1_def drop_rng_drop_rng by (simp add: add.commute)
    note IH = Cons.IH[of seen rs1]
    have IHk: "fst (uniqueLoop pop cc seen rs1) ! k = pop ! k"
      if "k < length pop" "genes (pop ! k) \<notin> seen \<union> set (map genes (take k pop))" for k
      using IH that by blast
    have IHr: "fst (uniqueLoop pop cc seen rs1) ! k =
           freshTour cc
             (drop_rng (length (filter (\<lambda>j. genes (pop ! j) \<in> seen \<union> set (map genes (take j pop)))
                                  [0 ..< k]) * (cc - 1)) rs1)"
      if "k < length pop" "genes (pop ! k) \<in> seen \<union> set (map genes (take k pop))" for k
      using IH that by blast
    show ?thesis unfolding eq
    proof (intro conjI allI impI)
      show "length (fst (freshTour cc rs # fst (uniqueLoop pop cc seen rs1), snd (uniqueLoop pop cc seen rs1)))
          = length (c # pop)"
        using IH by simp
    next
      show "snd (freshTour cc rs # fst (uniqueLoop pop cc seen rs1), snd (uniqueLoop pop cc seen rs1)) =
        drop_rng (length (filter (\<lambda>j. genes ((c # pop) ! j) \<in> seen \<union> set (map genes (take j (c # pop))))
                     [0 ..< length (c # pop)]) * (cc - 1)) rs"
        using IH cnt[of "length pop"] dr by simp
    next
      fix i assume i: "i < length (c # pop)"
      assume n: "genes ((c # pop) ! i) \<notin> seen \<union> set (map genes (take i (c # pop)))"
      show "fst (freshTour cc rs # fst (uniqueLoop pop cc seen rs1), snd (uniqueLoop pop cc seen rs1)) ! i
          = (c # pop) ! i"
      proof (cases i)
        case 0
        then show ?thesis using n True by simp
      next
        case (Suc k)
        have "genes (pop ! k) \<notin> seen \<union> set (map genes (take k pop))"
          using n[unfolded Suc s nth_Cons_Suc] .
        then show ?thesis using IHk[of k] i Suc by simp
      qed
    next
      fix i assume i: "i < length (c # pop)"
      assume d: "genes ((c # pop) ! i) \<in> seen \<union> set (map genes (take i (c # pop)))"
      show "fst (freshTour cc rs # fst (uniqueLoop pop cc seen rs1), snd (uniqueLoop pop cc seen rs1)) ! i =
           freshTour cc
             (drop_rng (length (filter (\<lambda>j. genes ((c # pop) ! j) \<in> seen \<union> set (map genes (take j (c # pop))))
                                  [0 ..< i]) * (cc - 1)) rs)"
      proof (cases i)
        case 0
        then show ?thesis by (simp add: drop_rng_0)
      next
        case (Suc k)
        have "genes (pop ! k) \<in> seen \<union> set (map genes (take k pop))"
          using d[unfolded Suc s nth_Cons_Suc] .
        then have "fst (uniqueLoop pop cc seen rs1) ! k =
           freshTour cc
             (drop_rng (length (filter (\<lambda>j. genes (pop ! j) \<in> seen \<union> set (map genes (take j pop)))
                                  [0 ..< k]) * (cc - 1)) rs1)"
          using IHr[of k] i Suc by simp
        then show ?thesis unfolding Suc cnt dr by simp
      qed
    qed
  next
    case False
    have eq: "uniqueLoop (c # pop) cc seen rs =
        (c # fst (uniqueLoop pop cc (insert (genes c) seen) rs),
         snd (uniqueLoop pop cc (insert (genes c) seen) rs))"
      using False by (simp add: Let_def split_beta)
    have s: "seen \<union> set (map genes (take (Suc i) (c # pop)))
       = insert (genes c) seen \<union> set (map genes (take i pop))" for i
      by auto
    have cnt: "length (filter (\<lambda>j. genes ((c # pop) ! j) \<in> seen \<union> set (map genes (take j (c # pop))))
                  [0 ..< Suc i])
        = length (filter (\<lambda>j. genes (pop ! j) \<in> insert (genes c) seen \<union> set (map genes (take j pop)))
                  [0 ..< i])" for i
    proof -
      have p: "(\<lambda>j. genes ((c # pop) ! Suc j) \<in> seen \<union> set (map genes (take (Suc j) (c # pop))))
          = (\<lambda>j. genes (pop ! j) \<in> insert (genes c) seen \<union> set (map genes (take j pop)))"
        by (rule ext) (simp only: s nth_Cons_Suc)
      have z: "\<not> genes ((c # pop) ! 0) \<in> seen \<union> set (map genes (take 0 (c # pop)))"
        using False by simp
      show ?thesis by (simp only: length_filter_upt_Suc p z if_False add_0)
    qed
    note IH = Cons.IH[of "insert (genes c) seen" rs]
    have IHk: "fst (uniqueLoop pop cc (insert (genes c) seen) rs) ! k = pop ! k"
      if "k < length pop" "genes (pop ! k) \<notin> insert (genes c) seen \<union> set (map genes (take k pop))" for k
      using IH that by blast
    have IHr: "fst (uniqueLoop pop cc (insert (genes c) seen) rs) ! k =
           freshTour cc
             (drop_rng (length (filter (\<lambda>j. genes (pop ! j) \<in> insert (genes c) seen \<union> set (map genes (take j pop)))
                                  [0 ..< k]) * (cc - 1)) rs)"
      if "k < length pop" "genes (pop ! k) \<in> insert (genes c) seen \<union> set (map genes (take k pop))" for k
      using IH that by blast
    show ?thesis unfolding eq
    proof (intro conjI allI impI)
      show "length (fst (c # fst (uniqueLoop pop cc (insert (genes c) seen) rs),
         snd (uniqueLoop pop cc (insert (genes c) seen) rs))) = length (c # pop)"
        using IH by simp
    next
      show "snd (c # fst (uniqueLoop pop cc (insert (genes c) seen) rs),
         snd (uniqueLoop pop cc (insert (genes c) seen) rs)) =
        drop_rng (length (filter (\<lambda>j. genes ((c # pop) ! j) \<in> seen \<union> set (map genes (take j (c # pop))))
                     [0 ..< length (c # pop)]) * (cc - 1)) rs"
        using IH cnt[of "length pop"] by simp
    next
      fix i assume i: "i < length (c # pop)"
      assume n: "genes ((c # pop) ! i) \<notin> seen \<union> set (map genes (take i (c # pop)))"
      show "fst (c # fst (uniqueLoop pop cc (insert (genes c) seen) rs),
         snd (uniqueLoop pop cc (insert (genes c) seen) rs)) ! i = (c # pop) ! i"
      proof (cases i)
        case 0
        then show ?thesis by simp
      next
        case (Suc k)
        have "genes (pop ! k) \<notin> insert (genes c) seen \<union> set (map genes (take k pop))"
          using n[unfolded Suc s nth_Cons_Suc] .
        then show ?thesis using IHk[of k] i Suc by simp
      qed
    next
      fix i assume i: "i < length (c # pop)"
      assume d: "genes ((c # pop) ! i) \<in> seen \<union> set (map genes (take i (c # pop)))"
      show "fst (c # fst (uniqueLoop pop cc (insert (genes c) seen) rs),
         snd (uniqueLoop pop cc (insert (genes c) seen) rs)) ! i =
           freshTour cc
             (drop_rng (length (filter (\<lambda>j. genes ((c # pop) ! j) \<in> seen \<union> set (map genes (take j (c # pop))))
                                  [0 ..< i]) * (cc - 1)) rs)"
      proof (cases i)
        case 0
        then show ?thesis using d False by simp
      next
        case (Suc k)
        have "genes (pop ! k) \<in> insert (genes c) seen \<union> set (map genes (take k pop))"
          using d[unfolded Suc s nth_Cons_Suc] .
        then have "fst (uniqueLoop pop cc (insert (genes c) seen) rs) ! k =
           freshTour cc
             (drop_rng (length (filter (\<lambda>j. genes (pop ! j) \<in> insert (genes c) seen \<union> set (map genes (take j pop)))
                                  [0 ..< k]) * (cc - 1)) rs)"
          using IHr[of k] i Suc by simp
        then show ?thesis unfolding Suc cnt by simp
      qed
    qed
  qed
qed

lemma rescore_spec:
  "(fitness c = 0 \<longrightarrow>
      rescore dm c = c\<lparr>fitness := calculateTotalDistanceWithMatrix (genes c) dm,
                       distance := calculateTotalDistanceWithMatrix (genes c) dm\<rparr>) \<and>
   (fitness c \<noteq> 0 \<longrightarrow> rescore dm c = c)"
  by (simp add: rescore_def calculateTotalDistanceWithMatrix_def Let_def)

text \<open>The shuffle reaches every permutation: the draw \<open>j / (i + 1)\<close> selects position \<open>j\<close>.\<close>

lemma randomIndex_ratio: "j < m \<Longrightarrow> randomIndex (real j / real m) m = j"
  by (simp add: randomIndex_def)

lemma take_swap:
  "i < m \<Longrightarrow> j < m \<Longrightarrow> take m (swap xs i j) = swap (take m xs) i j"
  by (simp add: swap_def take_update_swap)

lemma drop_swap:
  "i < m \<Longrightarrow> j < m \<Longrightarrow> drop m (swap xs i j) = drop m xs"
  by (simp add: swap_def)

lemma shuffleFrom_onto:
  "distinct g \<Longrightarrow> k < length g \<or> k = 0 \<Longrightarrow> length t = length g \<Longrightarrow>
   drop (Suc k) t = drop (Suc k) g \<Longrightarrow> mset (take (Suc k) t) = mset (take (Suc k) g) \<Longrightarrow>
   \<exists>rs. valid_rng rs \<and> fst (shuffleFrom k g rs) = t"
proof (induction k arbitrary: g)
  case 0
  have "t = g"
  proof (cases g)
    case Nil
    then show ?thesis using "0.prems"(3) by simp
  next
    case (Cons a g')
    then obtain b t' where t: "t = b # t'" using "0.prems"(3) by (cases t) auto
    then show ?thesis using "0.prems"(4,5) Cons by simp
  qed
  moreover have "valid_rng (constDraws 0)" by (simp add: valid_constDraws)
  ultimately show ?case by (intro exI[of _ "constDraws 0"]) simp
next
  case (Suc k)
  then have kl: "Suc k < length g" by simp
  let ?m = "Suc (Suc k)"
  have "t ! Suc k \<in> set (take ?m t)"
    using kl Suc.prems(3) by (simp add: in_set_conv_nth) (metis lessI min.absorb4 nth_take length_take)
  then have "t ! Suc k \<in> set (take ?m g)"
    using Suc.prems(5) by (metis set_mset_mset)
  then obtain j where j: "j < ?m" "g ! j = t ! Suc k"
    using kl by (auto simp: in_set_conv_nth)
  define g' where "g' = swap g (Suc k) j"
  have lg': "length g' = length g" by (simp add: g'_def length_swap)
  have jl: "j < length g" using j kl by simp
  have mg': "mset g' = mset g" unfolding g'_def using kl jl by (simp add: mset_swap')
  have dg': "distinct g'" using Suc.prems(1) mg' by (metis distinct_count_atmost_1 set_mset_mset)
  have nk: "g' ! Suc k = t ! Suc k"
  proof (cases "j = Suc k")
    case True
    then show ?thesis using j kl by (simp add: g'_def swap_def)
  next
    case False
    then show ?thesis using j kl jl by (simp add: g'_def swap_def nth_list_update)
  qed
  have dr2: "drop ?m g' = drop ?m g" unfolding g'_def using j by (simp add: drop_swap)
  have d1: "drop (Suc k) t = drop (Suc k) g'"
  proof -
    have "drop (Suc k) t = t ! Suc k # drop ?m t"
      using kl Suc.prems(3) by (simp add: Cons_nth_drop_Suc)
    also have "\<dots> = g' ! Suc k # drop ?m g'" using nk dr2 Suc.prems(4) by simp
    also have "\<dots> = drop (Suc k) g'" using kl lg' by (simp add: Cons_nth_drop_Suc)
    finally show ?thesis .
  qed
  have m1: "mset (take (Suc k) t) = mset (take (Suc k) g')"
  proof -
    have "mset (take ?m g') = mset (take ?m g)"
      unfolding g'_def using j kl jl by (simp add: take_swap mset_swap')
    then have "mset (take ?m t) = mset (take ?m g')" using Suc.prems(5) by simp
    moreover have "take ?m t = take (Suc k) t @ [t ! Suc k]"
      using kl Suc.prems(3) by (simp add: take_Suc_conv_app_nth)
    moreover have "take ?m g' = take (Suc k) g' @ [g' ! Suc k]"
      using kl lg' by (simp add: take_Suc_conv_app_nth)
    ultimately show ?thesis using nk by simp
  qed
  from Suc.IH[OF dg' _ _ d1 m1] kl lg' Suc.prems(3)
  obtain rs' where rs': "valid_rng rs'" "fst (shuffleFrom k g' rs') = t" by auto
  define r0 where "r0 = real j / real (Suc k + 1)"
  define rs where "rs = (\<lambda>i. case i of 0 \<Rightarrow> r0 | Suc i' \<Rightarrow> rs' i')"
  have r0: "0 \<le> r0" "r0 < 1" using j by (simp_all add: r0_def)
  have v: "valid_rng rs"
    using rs'(1) r0 by (auto simp: valid_rng_def rs_def split: nat.splits)
  have dr: "drop_rng (Suc 0) rs = rs'" by (simp add: drop_rng_def rs_def)
  have ri: "randomIndex (rs 0) (Suc (Suc k)) = j"
    using randomIndex_ratio[of j "Suc k + 1"] j by (simp add: rs_def r0_def)
  have "fst (shuffleFrom (Suc k) g rs) = t"
    using rs'(2) by (simp add: Let_def ri dr g'_def)
  then show ?case using v by blast
qed

lemma generateRandomChromosome_onto:
  assumes "isPermutation n p"
  shows "\<exists>rs. valid_rng rs \<and> fst (generateRandomChromosome n rs) = p"
proof -
  have "length p = length [0 ..< n]"
    using assms unfolding isPermutation_def by (rule mset_eq_length)
  then have l: "length p = n" by simp
  have m: "mset p = mset [0 ..< n]" using assms by (simp add: isPermutation_def)
  show ?thesis
    unfolding generateRandomChromosome_def
  proof (rule shuffleFrom_onto)
    show "distinct [0 ..< n]" by simp
    show "n - 1 < length [0 ..< n] \<or> n - 1 = 0" by (cases n) simp_all
    show "length p = length [0 ..< n]" using l by simp
    show "drop (Suc (n - 1)) p = drop (Suc (n - 1)) [0 ..< n]" using l by simp
    show "mset (take (Suc (n - 1)) p) = mset (take (Suc (n - 1)) [0 ..< n])"
      using l m by simp
  qed
qed

lemma valid_listDraws: "\<forall>d\<in>set ds. 0 \<le> d \<and> d < 1 \<Longrightarrow> valid_rng (listDraws ds)"
  by (simp add: valid_rng_def listDraws_def)

lemma uniqueOperator_stream:
  "length (fst (uniqueOperator population cityCount rs)) = length population \<and>
   snd (uniqueOperator population cityCount rs) =
     drop_rng (duplicatesBefore population (length population) * (cityCount - 1)) rs \<and>
   (\<forall>i<length population.
      (\<not> laterDuplicate population i \<longrightarrow>
         fst (uniqueOperator population cityCount rs) ! i = population ! i) \<and>
      (laterDuplicate population i \<longrightarrow>
         fst (uniqueOperator population cityCount rs) ! i =
           freshTour cityCount (drop_rng (duplicatesBefore population i * (cityCount - 1)) rs)))"
  using uniqueLoop_stream[of population cityCount "{}" rs]
  unfolding uniqueOperator_def duplicatesBefore_def laterDuplicate_def by simp

lemma freshTour_props:
  "fitness (freshTour cityCount rs) = 0 \<and> distance (freshTour cityCount rs) = 0 \<and>
   (valid_rng rs \<longrightarrow> isPermutation cityCount (genes (freshTour cityCount rs)))"
  by (simp add: freshTour_def generateRandomChromosome_perm)

lemma laterDuplicate_replicate:
  "i < n \<Longrightarrow> laterDuplicate (replicate n c) i \<longleftrightarrow> 0 < i"
  by (auto simp: laterDuplicate_def take_replicate)

lemma duplicatesBefore_replicate:
  "i \<le> n \<Longrightarrow> duplicatesBefore (replicate n c) i = i - 1"
proof (induction i)
  case 0
  then show ?case by (simp add: duplicatesBefore_def)
next
  case (Suc i)
  then have "duplicatesBefore (replicate n c) (Suc i)
      = duplicatesBefore (replicate n c) i + (if 0 < i then 1 else 0)"
    by (simp add: duplicatesBefore_def laterDuplicate_replicate)
  then show ?case using Suc by simp
qed

lemma list5: "length xs = 5 \<Longrightarrow> xs = [xs ! 0, xs ! 1, xs ! 2, xs ! 3, xs ! 4]"
  by (rule nth_equalityI) (auto simp: nth_Cons' less_Suc_eq eval_nat_numeral)

text \<open>
  Claim C6. \<open>uniqueOperator\<close> returns a population of the same size. A member whose gene
  sequence does not occur earlier in the population is kept as it is. Every later
  duplicate is replaced by a tour that \<open>generateRandomChromosome\<close> generates from the draws
  that follow those of the replacements before it (each generation reads \<open>cityCount - 1\<close>
  draws), with \<open>fitness\<close> and \<open>distance\<close> \<open>0\<close>; for draws in \<open>[0, 1)\<close> it is a permutation of
  the city indices. \<open>calculateFitnessAfterUnique\<close> then gives the members with \<open>fitness\<close>
  \<open>0\<close>, and only those, the cyclic length of their own tour in both fields, so a
  replacement carries the length of its own tour. In particular five identical tours
  give the original followed by four tours generated from the next draws in turn.
  Every permutation of the city indices is the generated tour for some draws.
\<close>

theorem uniqueOperator_spec:
  "(let result = fst (uniqueOperator population cityCount rs);
        rescored = calculateFitnessAfterUnique result dm
    in length result = length population \<and>
       snd (uniqueOperator population cityCount rs) =
         drop_rng (duplicatesBefore population (length population) * (cityCount - 1)) rs \<and>
       (\<forall>i<length population.
          (\<not> laterDuplicate population i \<longrightarrow> result ! i = population ! i) \<and>
          (laterDuplicate population i \<longrightarrow>
             result ! i =
               \<lparr>genes = fst (generateRandomChromosome cityCount
                               (drop_rng (duplicatesBefore population i * (cityCount - 1)) rs)),
                fitness = 0, distance = 0\<rparr> \<and>
             (valid_rng rs \<longrightarrow> isPermutation cityCount (genes (result ! i))) \<and>
             rescored ! i =
               \<lparr>genes = genes (result ! i),
                fitness = calculateTotalDistanceWithMatrix (genes (result ! i)) dm,
                distance = calculateTotalDistanceWithMatrix (genes (result ! i)) dm\<rparr>)) \<and>
       length rescored = length result \<and>
       (\<forall>i<length result.
          (fitness (result ! i) = 0 \<longrightarrow>
             rescored ! i =
               (result ! i)\<lparr>fitness := calculateTotalDistanceWithMatrix (genes (result ! i)) dm,
                             distance := calculateTotalDistanceWithMatrix (genes (result ! i)) dm\<rparr>) \<and>
          (fitness (result ! i) \<noteq> 0 \<longrightarrow> rescored ! i = result ! i)) \<and>
       (population = replicate 5 c \<longrightarrow>
          result = [c,
                    freshTour cityCount rs,
                    freshTour cityCount (drop_rng (cityCount - 1) rs),
                    freshTour cityCount (drop_rng (2 * (cityCount - 1)) rs),
                    freshTour cityCount (drop_rng (3 * (cityCount - 1)) rs)]) \<and>
       (\<forall>p. isPermutation cityCount p \<longrightarrow>
          (\<exists>rs'. valid_rng rs' \<and> genes (freshTour cityCount rs') = p)))"
proof -
  define result where "result = fst (uniqueOperator population cityCount rs)"
  note U = uniqueOperator_stream[of population cityCount rs, folded result_def]
  have len: "length result = length population" using U by simp
  have str: "snd (uniqueOperator population cityCount rs) =
         drop_rng (duplicatesBefore population (length population) * (cityCount - 1)) rs"
    using U by simp
  have keep: "result ! i = population ! i"
    if "i < length population" "\<not> laterDuplicate population i" for i
    using U that by blast
  have repl: "result ! i =
      freshTour cityCount (drop_rng (duplicatesBefore population i * (cityCount - 1)) rs)"
    if "i < length population" "laterDuplicate population i" for i
    using U that by blast
  have resc: "calculateFitnessAfterUnique result dm ! i = rescore dm (result ! i)"
    if "i < length result" for i
    using that by (simp add: calculateFitnessAfterUnique_def)
  have resc': "(fitness (result ! i) = 0 \<longrightarrow>
             calculateFitnessAfterUnique result dm ! i =
               (result ! i)\<lparr>fitness := calculateTotalDistanceWithMatrix (genes (result ! i)) dm,
                             distance := calculateTotalDistanceWithMatrix (genes (result ! i)) dm\<rparr>) \<and>
          (fitness (result ! i) \<noteq> 0 \<longrightarrow> calculateFitnessAfterUnique result dm ! i = result ! i)"
    if "i < length result" for i
    unfolding resc[OF that] by (rule rescore_spec)
  have repl': "result ! i =
               \<lparr>genes = fst (generateRandomChromosome cityCount
                               (drop_rng (duplicatesBefore population i * (cityCount - 1)) rs)),
                fitness = 0, distance = 0\<rparr> \<and>
             (valid_rng rs \<longrightarrow> isPermutation cityCount (genes (result ! i))) \<and>
             calculateFitnessAfterUnique result dm ! i =
               \<lparr>genes = genes (result ! i),
                fitness = calculateTotalDistanceWithMatrix (genes (result ! i)) dm,
                distance = calculateTotalDistanceWithMatrix (genes (result ! i)) dm\<rparr>"
    if i: "i < length population" and d: "laterDuplicate population i" for i
  proof (intro conjI impI)
    show e: "result ! i =
               \<lparr>genes = fst (generateRandomChromosome cityCount
                               (drop_rng (duplicatesBefore population i * (cityCount - 1)) rs)),
                fitness = 0, distance = 0\<rparr>"
      using repl[OF i d] by (simp add: freshTour_def)
    show "isPermutation cityCount (genes (result ! i))" if "valid_rng rs"
      unfolding repl[OF i d] using freshTour_props valid_rng_drop[OF that] by blast
    have "fitness (result ! i) = 0" unfolding e by simp
    then have "calculateFitnessAfterUnique result dm ! i =
               (result ! i)\<lparr>fitness := calculateTotalDistanceWithMatrix (genes (result ! i)) dm,
                             distance := calculateTotalDistanceWithMatrix (genes (result ! i)) dm\<rparr>"
      using resc'[of i] i len by simp
    then show "calculateFitnessAfterUnique result dm ! i =
               \<lparr>genes = genes (result ! i),
                fitness = calculateTotalDistanceWithMatrix (genes (result ! i)) dm,
                distance = calculateTotalDistanceWithMatrix (genes (result ! i)) dm\<rparr>"
      by simp
  qed
  have five: "result = [c,
                    freshTour cityCount rs,
                    freshTour cityCount (drop_rng (cityCount - 1) rs),
                    freshTour cityCount (drop_rng (2 * (cityCount - 1)) rs),
                    freshTour cityCount (drop_rng (3 * (cityCount - 1)) rs)]"
    if p: "population = replicate 5 c"
  proof -
    have l5: "length result = 5" using len p by simp
    have r0: "result ! 0 = c" using keep[of 0] p by (simp add: laterDuplicate_replicate)
    have ri: "result ! i = freshTour cityCount (drop_rng ((i - 1) * (cityCount - 1)) rs)"
      if "0 < i" "i < 5" for i
      using repl[of i] that p by (simp add: laterDuplicate_replicate duplicatesBefore_replicate)
    have "result = [result ! 0, result ! 1, result ! 2, result ! 3, result ! 4]"
      using l5 by (rule list5)
    also have "\<dots> = [c,
                    freshTour cityCount rs,
                    freshTour cityCount (drop_rng (cityCount - 1) rs),
                    freshTour cityCount (drop_rng (2 * (cityCount - 1)) rs),
                    freshTour cityCount (drop_rng (3 * (cityCount - 1)) rs)]"
      using r0 ri[of 1] ri[of 2] ri[of 3] ri[of 4] by (simp add: drop_rng_0)
    finally show ?thesis .
  qed
  have lr: "length (calculateFitnessAfterUnique result dm) = length result"
    by (simp add: calculateFitnessAfterUnique_def)
  have onto: "\<exists>rs'. valid_rng rs' \<and> genes (freshTour cityCount rs') = p"
    if "isPermutation cityCount p" for p
    using generateRandomChromosome_onto[OF that] by (simp add: freshTour_def)
  show ?thesis
    unfolding Let_def result_def[symmetric]
    using len str keep repl' five resc' lr onto by blast
qed

theorem uniqueOperator_spec_witness:
  "valid_rng twelveDraws \<and>
   fst (uniqueOperator (replicate 5 (identityTour 4)) 4 twelveDraws) =
     [\<lparr>genes = [0, 1, 2, 3], fitness = 7, distance = 7\<rparr>,
      \<lparr>genes = [1, 2, 3, 0], fitness = 0, distance = 0\<rparr>,
      \<lparr>genes = [0, 3, 1, 2], fitness = 0, distance = 0\<rparr>,
      \<lparr>genes = [2, 1, 0, 3], fitness = 0, distance = 0\<rparr>,
      \<lparr>genes = [3, 0, 2, 1], fitness = 0, distance = 0\<rparr>] \<and>
   snd (uniqueOperator (replicate 5 (identityTour 4)) 4 twelveDraws) = drop_rng 12 twelveDraws \<and>
   isPermutation 4 (genes (fst (uniqueOperator (replicate 5 (identityTour 4)) 4 twelveDraws) ! 2)) \<and>
   isPermutation 4 [3, 2, 1, 0] \<and>
   (\<exists>rs'. valid_rng rs' \<and> genes (freshTour 4 rs') = [3, 2, 1, 0]) \<and>
   calculateFitnessAfterUnique
       (fst (uniqueOperator (replicate 5 (identityTour 4)) 4 twelveDraws)) lineMatrix =
     [\<lparr>genes = [0, 1, 2, 3], fitness = 7, distance = 7\<rparr>,
      \<lparr>genes = [1, 2, 3, 0], fitness = 6, distance = 6\<rparr>,
      \<lparr>genes = [0, 3, 1, 2], fitness = 8, distance = 8\<rparr>,
      \<lparr>genes = [2, 1, 0, 3], fitness = 6, distance = 6\<rparr>,
      \<lparr>genes = [3, 0, 2, 1], fitness = 8, distance = 8\<rparr>]"
proof -
  let ?pop = "replicate 5 (identityTour 4)"
  let ?result = "fst (uniqueOperator ?pop 4 twelveDraws)"
  have v: "valid_rng twelveDraws"
    unfolding twelveDraws_def by (rule valid_listDraws) simp
  have c: "identityTour 4 = \<lparr>genes = [0, 1, 2, 3], fitness = 7, distance = 7\<rparr>"
    by code_simp
  have f1: "freshTour 4 twelveDraws = \<lparr>genes = [1, 2, 3, 0], fitness = 0, distance = 0\<rparr>"
    by code_simp
  have f2: "freshTour 4 (drop_rng 3 twelveDraws) = \<lparr>genes = [0, 3, 1, 2], fitness = 0, distance = 0\<rparr>"
    by code_simp
  have f3: "freshTour 4 (drop_rng 6 twelveDraws) = \<lparr>genes = [2, 1, 0, 3], fitness = 0, distance = 0\<rparr>"
    by code_simp
  have f4: "freshTour 4 (drop_rng 9 twelveDraws) = \<lparr>genes = [3, 0, 2, 1], fitness = 0, distance = 0\<rparr>"
    by code_simp
  have d2: "2 < length ?pop" "laterDuplicate ?pop 2"
    by (simp_all add: laterDuplicate_replicate)
  note S = uniqueOperator_spec[of ?pop 4 twelveDraws lineMatrix "identityTour 4", unfolded Let_def]
  have r: "?result =
     [\<lparr>genes = [0, 1, 2, 3], fitness = 7, distance = 7\<rparr>,
      \<lparr>genes = [1, 2, 3, 0], fitness = 0, distance = 0\<rparr>,
      \<lparr>genes = [0, 3, 1, 2], fitness = 0, distance = 0\<rparr>,
      \<lparr>genes = [2, 1, 0, 3], fitness = 0, distance = 0\<rparr>,
      \<lparr>genes = [3, 0, 2, 1], fitness = 0, distance = 0\<rparr>]"
    using S f1 f2 f3 f4 c by simp
  have s: "snd (uniqueOperator ?pop 4 twelveDraws) = drop_rng 12 twelveDraws"
    using S by (simp add: duplicatesBefore_replicate)
  have p: "isPermutation 4 (genes (?result ! 2))"
    using S d2 v by blast
  have q: "calculateFitnessAfterUnique
     [\<lparr>genes = [0, 1, 2, 3], fitness = 7, distance = 7\<rparr>,
      \<lparr>genes = [1, 2, 3, 0], fitness = 0, distance = 0\<rparr>,
      \<lparr>genes = [0, 3, 1, 2], fitness = 0, distance = 0\<rparr>,
      \<lparr>genes = [2, 1, 0, 3], fitness = 0, distance = 0\<rparr>,
      \<lparr>genes = [3, 0, 2, 1], fitness = 0, distance = 0\<rparr>] lineMatrix =
     [\<lparr>genes = [0, 1, 2, 3], fitness = 7, distance = 7\<rparr>,
      \<lparr>genes = [1, 2, 3, 0], fitness = 6, distance = 6\<rparr>,
      \<lparr>genes = [0, 3, 1, 2], fitness = 8, distance = 8\<rparr>,
      \<lparr>genes = [2, 1, 0, 3], fitness = 6, distance = 6\<rparr>,
      \<lparr>genes = [3, 0, 2, 1], fitness = 8, distance = 8\<rparr>]"
    by code_simp
  have i: "isPermutation 4 [3, 2, 1, 0]" by code_simp
  have o: "\<exists>rs'. valid_rng rs' \<and> genes (freshTour 4 rs') = [3, 2, 1, 0]"
    using S i by blast
  show ?thesis using v r s p q i o by simp
qed

subsection \<open>Roulette-wheel selection\<close>

lemma cumulativeFitness_Suc:
  "Suc i < length fs \<Longrightarrow> cumulativeFitness fs (Suc i) = cumulativeFitness fs i + fs ! Suc i"
  by (simp add: cumulativeFitness_def take_Suc_conv_app_nth)

lemma cumulativeFitness_0: "0 < length fs \<Longrightarrow> cumulativeFitness fs 0 = fs ! 0"
  by (cases fs) (simp_all add: cumulativeFitness_def)

lemma wheel_Some:
  "a \<le> N \<Longrightarrow> N \<le> length fs \<Longrightarrow>
   wheel fs spin [a ..< N] (sum_list (take a fs)) = Some k \<longleftrightarrow>
     a \<le> k \<and> k < N \<and> spin \<le> cumulativeFitness fs k \<and>
     (\<forall>j. a \<le> j \<and> j < k \<longrightarrow> cumulativeFitness fs j < spin)"
proof (induction "N - a" arbitrary: a)
  case 0
  then show ?case by simp
next
  case (Suc d)
  then have aN: "a < N" and al: "a < length fs" by auto
  have up: "[a ..< N] = a # [Suc a ..< N]" using aN by (simp add: upt_conv_Cons)
  have c: "sum_list (take a fs) + fs ! a = cumulativeFitness fs a"
    using al by (simp add: cumulativeFitness_def take_Suc_conv_app_nth)
  show ?case
  proof (cases "spin \<le> cumulativeFitness fs a")
    case True
    have "wheel fs spin [a ..< N] (sum_list (take a fs)) = Some a"
      unfolding up using True by (simp only: wheel.simps Let_def c if_True)
    moreover have "(a \<le> k \<and> k < N \<and> spin \<le> cumulativeFitness fs k \<and>
       (\<forall>j. a \<le> j \<and> j < k \<longrightarrow> cumulativeFitness fs j < spin)) \<longleftrightarrow> k = a"
    proof
      assume h: "a \<le> k \<and> k < N \<and> spin \<le> cumulativeFitness fs k \<and>
       (\<forall>j. a \<le> j \<and> j < k \<longrightarrow> cumulativeFitness fs j < spin)"
      have "\<not> a < k"
      proof
        assume "a < k"
        then have "cumulativeFitness fs a < spin" using h by simp
        then show False using True by simp
      qed
      then show "k = a" using h by simp
    next
      assume "k = a"
      then show "a \<le> k \<and> k < N \<and> spin \<le> cumulativeFitness fs k \<and>
       (\<forall>j. a \<le> j \<and> j < k \<longrightarrow> cumulativeFitness fs j < spin)"
        using True aN by simp
    qed
    ultimately show ?thesis by auto
  next
    case False
    have w: "wheel fs spin [a ..< N] (sum_list (take a fs)) =
             wheel fs spin [Suc a ..< N] (sum_list (take (Suc a) fs))"
      unfolding up using False
      by (simp only: wheel.simps Let_def c if_False) (simp only: cumulativeFitness_def)
    have d: "d = N - Suc a" using Suc.hyps(2) by simp
    have IH: "wheel fs spin [Suc a ..< N] (sum_list (take (Suc a) fs)) = Some k \<longleftrightarrow>
       Suc a \<le> k \<and> k < N \<and> spin \<le> cumulativeFitness fs k \<and>
       (\<forall>j. Suc a \<le> j \<and> j < k \<longrightarrow> cumulativeFitness fs j < spin)"
      using Suc.hyps(1)[OF d] aN Suc.prems by simp
    have "(Suc a \<le> k \<and> k < N \<and> spin \<le> cumulativeFitness fs k \<and>
       (\<forall>j. Suc a \<le> j \<and> j < k \<longrightarrow> cumulativeFitness fs j < spin)) \<longleftrightarrow>
       (a \<le> k \<and> k < N \<and> spin \<le> cumulativeFitness fs k \<and>
       (\<forall>j. a \<le> j \<and> j < k \<longrightarrow> cumulativeFitness fs j < spin))"
      using False by (metis Suc_leI le_eq_less_or_eq not_le Suc_le_lessD)
    then show ?thesis using w IH by simp
  qed
qed

lemma wheel_None:
  "a \<le> N \<Longrightarrow> N \<le> length fs \<Longrightarrow>
   wheel fs spin [a ..< N] (sum_list (take a fs)) = None \<longleftrightarrow>
     (\<forall>j. a \<le> j \<and> j < N \<longrightarrow> cumulativeFitness fs j < spin)"
proof (induction "N - a" arbitrary: a)
  case 0
  then show ?case by simp
next
  case (Suc d)
  then have aN: "a < N" and al: "a < length fs" by auto
  have up: "[a ..< N] = a # [Suc a ..< N]" using aN by (simp add: upt_conv_Cons)
  have c: "sum_list (take a fs) + fs ! a = cumulativeFitness fs a"
    using al by (simp add: cumulativeFitness_def take_Suc_conv_app_nth)
  show ?case
  proof (cases "spin \<le> cumulativeFitness fs a")
    case True
    have "wheel fs spin [a ..< N] (sum_list (take a fs)) = Some a"
      unfolding up using True by (simp only: wheel.simps Let_def c if_True)
    moreover have "\<not> (\<forall>j. a \<le> j \<and> j < N \<longrightarrow> cumulativeFitness fs j < spin)"
      using True aN by (auto intro!: exI[of _ a])
    ultimately show ?thesis by simp
  next
    case False
    have w: "wheel fs spin [a ..< N] (sum_list (take a fs)) =
             wheel fs spin [Suc a ..< N] (sum_list (take (Suc a) fs))"
      unfolding up using False
      by (simp only: wheel.simps Let_def c if_False) (simp only: cumulativeFitness_def)
    have d: "d = N - Suc a" using Suc.hyps(2) by simp
    have IH: "wheel fs spin [Suc a ..< N] (sum_list (take (Suc a) fs)) = None \<longleftrightarrow>
       (\<forall>j. Suc a \<le> j \<and> j < N \<longrightarrow> cumulativeFitness fs j < spin)"
      using Suc.hyps(1)[OF d] aN Suc.prems by simp
    have "(\<forall>j. Suc a \<le> j \<and> j < N \<longrightarrow> cumulativeFitness fs j < spin) \<longleftrightarrow>
          (\<forall>j. a \<le> j \<and> j < N \<longrightarrow> cumulativeFitness fs j < spin)"
      using False by (metis Suc_leI le_eq_less_or_eq not_le Suc_le_lessD)
    then show ?thesis using w IH by simp
  qed
qed

lemma randomIndex_interval:
  assumes "0 \<le> r" "0 < N"
  shows "randomIndex r N = i \<longleftrightarrow> real i / real N \<le> r \<and> r < (real i + 1) / real N"
proof -
  have nn: "0 \<le> r * real N" using assms by simp
  have "randomIndex r N = i \<longleftrightarrow> \<lfloor>r * real N\<rfloor> = int i"
    unfolding randomIndex_def using nn by (metis nat_int int_nat_eq zero_le_floor)
  also have "\<dots> \<longleftrightarrow> real i \<le> r * real N \<and> r * real N < real i + 1"
    by (simp add: floor_eq_iff)
  also have "\<dots> \<longleftrightarrow> real i / real N \<le> r \<and> r < (real i + 1) / real N"
    using assms(2) by (simp add: pos_divide_le_eq pos_less_divide_eq)
  finally show ?thesis .
qed

lemma cumulativeFitness_mono:
  assumes "\<forall>f\<in>set fs. 0 \<le> f" "j \<le> i" "i < length fs"
  shows "cumulativeFitness fs j \<le> cumulativeFitness fs i"
  using assms(2,3)
proof (induction i)
  case 0
  then show ?case by simp
next
  case (Suc i)
  show ?case
  proof (cases "j = Suc i")
    case True
    then show ?thesis by simp
  next
    case False
    then have "cumulativeFitness fs j \<le> cumulativeFitness fs i" using Suc by simp
    moreover have "0 \<le> fs ! Suc i" using assms(1) Suc.prems(2) by simp
    ultimately show ?thesis using cumulativeFitness_Suc[OF Suc.prems(2)] by simp
  qed
qed

lemma cumulativeFitness_last: "0 < length fs \<Longrightarrow> cumulativeFitness fs (length fs - 1) = sum_list fs"
  by (simp add: cumulativeFitness_def)

text \<open>
  Claim C7. Roulette-wheel selection on a non-empty population, with one fitness value
  per member and a draw \<open>r\<close> in \<open>[0, 1)\<close>, always returns a member, never an error. When the
  fitness values sum to zero, member \<open>i\<close> is returned exactly for the draws in
  \<open>[i / N, (i + 1) / N)\<close>, an interval of length \<open>1 / N\<close>: the uniform choice. When the sum
  \<open>T\<close> is positive (and no value is negative), member \<open>i\<close> is returned exactly for the draws
  in \<open>(c\<^sub>i\<^sub>-\<^sub>1 / T, c\<^sub>i / T]\<close>, where \<open>c\<^sub>i\<close> is the running sum up to \<open>i\<close>, an interval of length
  \<open>f\<^sub>i / T\<close>: the choice proportional to fitness.
\<close>

theorem rouletteWheelSelect_spec:
  assumes "0 \<le> r" "r < 1" "population \<noteq> []" "length fitnessValues = length population"
  shows
  "(sum_list fitnessValues = 0 \<longrightarrow>
      (\<exists>k<length population.
         rouletteWheelSelect population fitnessValues r = Some (population ! k) \<and>
         (\<forall>i<length population.
            k = i \<longleftrightarrow> real i / real (length population) \<le> r \<and>
                    r < (real i + 1) / real (length population)))) \<and>
   (0 < sum_list fitnessValues \<and> (\<forall>f\<in>set fitnessValues. 0 \<le> f) \<longrightarrow>
      (\<exists>k<length population.
         rouletteWheelSelect population fitnessValues r = Some (population ! k) \<and>
         (\<forall>i<length population.
            k = i \<longleftrightarrow>
              (i = 0 \<or> cumulativeFitness fitnessValues (i - 1) / sum_list fitnessValues < r) \<and>
              r \<le> cumulativeFitness fitnessValues i / sum_list fitnessValues)))"
proof (intro conjI impI)
  define N where "N = length population"
  have N: "0 < N" using assms(3) by (simp add: N_def)
  assume z: "sum_list fitnessValues = 0"
  have k: "randomIndex r N < N" using assms(1,2) N by (rule randomIndex_less)
  have "rouletteWheelSelect population fitnessValues r = Some (population ! randomIndex r N)"
    using z k by (simp add: rouletteWheelSelect_def nth_opt_def N_def)
  moreover have "\<forall>i<N. randomIndex r N = i \<longleftrightarrow> real i / real N \<le> r \<and> r < (real i + 1) / real N"
    using randomIndex_interval[OF assms(1) N] by simp
  ultimately show "\<exists>k<length population.
         rouletteWheelSelect population fitnessValues r = Some (population ! k) \<and>
         (\<forall>i<length population.
            k = i \<longleftrightarrow> real i / real (length population) \<le> r \<and>
                    r < (real i + 1) / real (length population))"
    using k unfolding N_def by blast
next
  define N where "N = length population"
  define T where "T = sum_list fitnessValues"
  define spin where "spin = r * T"
  let ?c = "cumulativeFitness fitnessValues"
  have N: "0 < N" using assms(3) by (simp add: N_def)
  have lN: "length fitnessValues = N" using assms(4) by (simp add: N_def)
  assume h: "0 < sum_list fitnessValues \<and> (\<forall>f\<in>set fitnessValues. 0 \<le> f)"
  then have T: "0 < T" and nn: "\<forall>f\<in>set fitnessValues. 0 \<le> f" by (simp_all add: T_def)
  have sT: "spin \<le> T" unfolding spin_def using assms(2) T by simp
  have last: "?c (N - 1) = T" using cumulativeFitness_last[of fitnessValues] N lN by (simp add: T_def)
  note WS = wheel_Some[of 0 N fitnessValues spin, simplified]
  note WN = wheel_None[of 0 N fitnessValues spin, simplified]
  have "wheel fitnessValues spin [0 ..< N] 0 \<noteq> None"
  proof
    assume "wheel fitnessValues spin [0 ..< N] 0 = None"
    then have "?c (N - 1) < spin" using WN lN N by simp
    then show False using last sT by simp
  qed
  then obtain k where k: "wheel fitnessValues spin [0 ..< N] 0 = Some k" by auto
  then have kN: "k < N" and k1: "spin \<le> ?c k" and k2: "\<forall>j<k. ?c j < spin"
    using WS[of k] lN by auto
  have sel: "rouletteWheelSelect population fitnessValues r = Some (population ! k)"
    using T k kN by (simp add: rouletteWheelSelect_def Let_def T_def spin_def nth_opt_def N_def)
  have div1: "a / T < r \<longleftrightarrow> a < spin" for a
    using T by (simp add: spin_def pos_divide_less_eq)
  have div2: "r \<le> a / T \<longleftrightarrow> spin \<le> a" for a
    using T by (simp add: spin_def pos_le_divide_eq)
  have char: "k = i \<longleftrightarrow> (i = 0 \<or> ?c (i - 1) / T < r) \<and> r \<le> ?c i / T" if i: "i < N" for i
  proof
    assume "k = i"
    then show "(i = 0 \<or> ?c (i - 1) / T < r) \<and> r \<le> ?c i / T"
      using k1 k2 by (cases i) (auto simp: div1 div2)
  next
    assume a: "(i = 0 \<or> ?c (i - 1) / T < r) \<and> r \<le> ?c i / T"
    then have i1: "spin \<le> ?c i" by (simp add: div2)
    have i2: "?c j < spin" if "j < i" for j
    proof -
      from that a have b: "?c (i - 1) < spin" by (auto simp: div1)
      have "?c j \<le> ?c (i - 1)" using that i lN by (intro cumulativeFitness_mono nn) auto
      then show ?thesis using b by simp
    qed
    have "wheel fitnessValues spin [0 ..< N] 0 = Some i"
      using WS[of i] lN i i1 i2 by simp
    then show "k = i" using k by simp
  qed
  show "\<exists>k<length population.
         rouletteWheelSelect population fitnessValues r = Some (population ! k) \<and>
         (\<forall>i<length population.
            k = i \<longleftrightarrow>
              (i = 0 \<or> cumulativeFitness fitnessValues (i - 1) / sum_list fitnessValues < r) \<and>
              r \<le> cumulativeFitness fitnessValues i / sum_list fitnessValues)"
    using kN sel char unfolding N_def T_def by blast
qed

theorem rouletteWheelSelect_spec_witness:
  "rouletteWheelSelect [identityTour 3, reversedTour 3] [0, 0] (1 / 2) = Some (reversedTour 3) \<and>
   rouletteWheelSelect [identityTour 3, reversedTour 3] [1, 3] (1 / 2) = Some (reversedTour 3)"
proof -
  let ?pop = "[identityTour 3, reversedTour 3]"
  have r: "(0::real) \<le> 1 / 2" "(1::real) / 2 < 1" by simp_all
  have ne: "?pop \<noteq> []" by simp
  have z: "sum_list [0, 0 :: real] = 0" by simp
  have p: "0 < sum_list [1, 3 :: real] \<and> (\<forall>f\<in>set [1, 3 :: real]. 0 \<le> f)" by simp
  from rouletteWheelSelect_spec[OF r ne, of "[0, 0]"] z
  obtain k where k: "k < length ?pop"
      "rouletteWheelSelect ?pop [0, 0] (1 / 2) = Some (?pop ! k)"
      "\<forall>i<length ?pop. k = i \<longleftrightarrow> real i / real (length ?pop) \<le> 1 / 2 \<and>
                    1 / 2 < (real i + 1) / real (length ?pop)"
    by auto
  from k(3) have "k = 1" by simp
  with k(2) have a: "rouletteWheelSelect ?pop [0, 0] (1 / 2) = Some (reversedTour 3)" by simp
  from rouletteWheelSelect_spec[OF r ne, of "[1, 3]"] p
  obtain m where m: "m < length ?pop"
      "rouletteWheelSelect ?pop [1, 3] (1 / 2) = Some (?pop ! m)"
      "\<forall>i<length ?pop. m = i \<longleftrightarrow>
          (i = 0 \<or> cumulativeFitness [1, 3] (i - 1) / sum_list [1, 3] < 1 / 2) \<and>
          1 / 2 \<le> cumulativeFitness [1, 3] i / sum_list [1, 3]"
    by auto
  from m(3) have "m = 1" by (simp add: cumulativeFitness_def)
  with m(2) have b: "rouletteWheelSelect ?pop [1, 3] (1 / 2) = Some (reversedTour 3)" by simp
  from a b show ?thesis by simp
qed

subsection \<open>Permutations\<close>

lemma isPermutation_distinct: "isPermutation n g \<Longrightarrow> distinct g"
  unfolding isPermutation_def by (metis distinct_upt mset_eq_imp_distinct_iff)

lemma isPermutation_set: "isPermutation n g \<Longrightarrow> set g = {0 ..< n}"
  unfolding isPermutation_def by (metis mset_eq_setD set_upt)

lemma isPermutation_length: "isPermutation n g \<Longrightarrow> length g = n"
  unfolding isPermutation_def by (metis length_upt mset_eq_length minus_nat.diff_0)

lemma isPermutationI:
  assumes "distinct g" "set g \<subseteq> {0 ..< n}" "length g = n"
  shows "isPermutation n g"
proof -
  have "card (set g) = n" using assms(1,3) by (simp add: distinct_card)
  then have "set g = {0 ..< n}" using assms(2) by (simp add: card_subset_eq)
  then have "set g = set [0 ..< n]" by simp
  then show ?thesis unfolding isPermutation_def
    using assms(1) by (metis distinct_upt set_eq_iff_mset_eq_distinct)
qed

lemma isPermutation_mset: "isPermutation n g \<Longrightarrow> mset g' = mset g \<Longrightarrow> isPermutation n g'"
  by (simp add: isPermutation_def)

subsection \<open>Bidirectional heuristic crossover\<close>

lemma findNeighbors_in:
  assumes "genes c \<noteq> []"
  shows "set (findNeighbors city c dir) \<subseteq> set (genes c)"
proof -
  define n where "n = int (length (genes c))"
  have n: "0 < n" using assms by (simp add: n_def)
  have "nat (z mod n) < length (genes c)" for z
    using n by (simp add: n_def nat_less_iff)
  then show ?thesis
    unfolding findNeighbors_def Let_def n_def[symmetric]
    by (cases dir) (auto simp: n_def)
qed

lemma findNearestCity_in:
  assumes "cands \<noteq> []"
  shows "findNearestCity from cands dm \<in> set cands"
proof -
  have "fst st \<in> set cands \<Longrightarrow> set xs \<subseteq> set cands \<Longrightarrow>
        fst (fold (\<lambda>cityId (nearestCityId, minDistance).
                  let dist = dm ! from ! cityId
                  in if dist < minDistance then (cityId, dist) else (nearestCityId, minDistance))
               xs st) \<in> set cands" for xs st
    by (induction xs arbitrary: st) (auto simp: Let_def split_beta)
  moreover have "cands ! 0 \<in> set cands" using assms by simp
  ultimately show ?thesis unfolding findNearestCity_def by simp
qed

lemma bhxLoop_inv:
  "isPermutation n (genes p1) \<Longrightarrow> isPermutation n (genes p2) \<Longrightarrow> 0 < n \<Longrightarrow>
     distinct offspring \<Longrightarrow> set offspring = visited \<Longrightarrow> set offspring \<subseteq> {0 ..< n} \<Longrightarrow>
     distinct (bhxLoop n p1 p2 dm dir offspring visited c) \<and>
     set (bhxLoop n p1 p2 dm dir offspring visited c) \<subseteq> {0 ..< n} \<and>
     n \<le> length (bhxLoop n p1 p2 dm dir offspring visited c)"
proof (induction n p1 p2 dm dir offspring visited c rule: bhxLoop.induct)
  case (1 n parent1 parent2 dm dir offspring visited currentCity)
  note ne1 = isPermutation_length[OF "1.prems"(1)] and ne2 = isPermutation_length[OF "1.prems"(2)]
  show ?case
  proof (cases "length offspring < n")
    case False
    then show ?thesis using 1 by (simp add: bhxLoop.simps[of n parent1 parent2 dm dir offspring])
  next
    case True
    define un where "un = filter (\<lambda>city. city \<notin> visited)
        (findNeighbors currentCity parent1 dir @ findNeighbors currentCity parent2 dir)"
    define rem where "rem = filter (\<lambda>city. city \<notin> visited) [0 ..< n]"
    have g1: "genes parent1 \<noteq> []" and g2: "genes parent2 \<noteq> []"
      using ne1 ne2 "1.prems"(3) by auto
    have un_sub: "set un \<subseteq> {0 ..< n} - visited"
      using findNeighbors_in[OF g1, of currentCity dir] findNeighbors_in[OF g2, of currentCity dir]
        isPermutation_set[OF "1.prems"(1)] isPermutation_set[OF "1.prems"(2)]
      by (auto simp: un_def)
    have rem_set: "set rem = {0 ..< n} - visited" by (auto simp: rem_def)
    have rem_ne: "rem \<noteq> []"
    proof
      assume "rem = []"
      then have "{0 ..< n} \<subseteq> set offspring" using rem_set "1.prems"(5) by auto
      then have "card {0 ..< n} \<le> card (set offspring)" by (intro card_mono) auto
      then have "n \<le> length offspring" using "1.prems"(4) by (simp add: distinct_card)
      then show False using True by simp
    qed
    define nxt where "nxt = (if un = [] then findNearestCity currentCity rem dm
                             else findNearestCity currentCity un dm)"
    have nxt_in: "nxt \<in> {0 ..< n} - visited"
      using findNearestCity_in[OF rem_ne, of currentCity dm] rem_set un_sub
        findNearestCity_in[of un currentCity dm]
      by (auto simp: nxt_def)
    have unfold: "bhxLoop n parent1 parent2 dm dir offspring visited currentCity =
       (if un = [] then
          (if rem = [] then offspring
           else bhxLoop n parent1 parent2 dm dir
                  (offspring @ [findNearestCity currentCity rem dm])
                  (insert (findNearestCity currentCity rem dm) visited)
                  (findNearestCity currentCity rem dm))
        else bhxLoop n parent1 parent2 dm dir
               (offspring @ [findNearestCity currentCity un dm])
               (insert (findNearestCity currentCity un dm) visited)
               (findNearestCity currentCity un dm))"
      by (subst bhxLoop.simps) (simp only: True if_True Let_def un_def rem_def)
    have step: "bhxLoop n parent1 parent2 dm dir offspring visited currentCity =
       bhxLoop n parent1 parent2 dm dir (offspring @ [nxt]) (insert nxt visited) nxt"
      unfolding unfold nxt_def using rem_ne by (simp only: if_False split: if_split) simp
    have d': "distinct (offspring @ [nxt])" using "1.prems"(4,5) nxt_in by auto
    have s': "set (offspring @ [nxt]) = insert nxt visited" using "1.prems"(5) by auto
    have b': "set (offspring @ [nxt]) \<subseteq> {0 ..< n}" using "1.prems"(6) nxt_in by auto
    show ?thesis
    proof (cases "un = []")
      case True': True
      have e: "nxt = findNearestCity currentCity rem dm" using True' by (simp add: nxt_def)
      show ?thesis unfolding step
        using "1.IH"(1)[OF True refl refl refl un_def True' rem_def rem_ne refl "1.prems"(1,2,3)]
          d' s' b' unfolding e by blast
    next
      case False
      have e: "nxt = findNearestCity currentCity un dm" using False by (simp add: nxt_def)
      show ?thesis unfolding step
        using "1.IH"(2)[OF True refl refl refl un_def False refl "1.prems"(1,2,3)]
          d' s' b' unfolding e by blast
    qed
  qed
qed

lemma bhxLoop_perm:
  assumes "isPermutation n (genes p1)" "isPermutation n (genes p2)" "0 < n" "c < n"
  shows "isPermutation n (bhxLoop n p1 p2 dm dir [c] {c} c)"
proof -
  let ?r = "bhxLoop n p1 p2 dm dir [c] {c} c"
  have inv: "distinct ?r \<and> set ?r \<subseteq> {0 ..< n} \<and> n \<le> length ?r"
    using assms by (intro bhxLoop_inv) auto
  then have "length ?r = card (set ?r)" by (simp add: distinct_card)
  also have "\<dots> \<le> card {0 ..< n}" using inv by (intro card_mono) auto
  finally have "length ?r = n" using inv by simp
  then show ?thesis using inv by (intro isPermutationI) auto
qed

lemma bidirectionalHeuristicCrossover_perm:
  assumes "isPermutation n (genes p1)" "isPermutation n (genes p2)" "valid_rng rs"
  shows "(n = 0 \<longrightarrow> bidirectionalHeuristicCrossover p1 p2 dm rs = Inl TypeError) \<and>
         (0 < n \<longrightarrow>
            (\<exists>c. bidirectionalHeuristicCrossover p1 p2 dm rs = Inr (c, drop_rng 2 rs) \<and>
                 isPermutation n (genes c) \<and> fitness c = distance c \<and>
                 distance c = calculateDistanceWithMatrix (genes c) dm))"
proof (cases "n = 0")
  case True
  then show ?thesis using isPermutation_length[OF assms(1)]
    by (simp add: bidirectionalHeuristicCrossover_def)
next
  case False
  then have n: "0 < n" by simp
  have l: "length (genes p1) = n" by (rule isPermutation_length[OF assms(1)])
  have "randomIndex (rs 1) n < n" using valid_rng_nth[OF assms(3), of 1] n by (intro randomIndex_less) auto
  then have "genes p1 ! randomIndex (rs 1) n \<in> set (genes p1)" using l by simp
  then have c: "genes p1 ! randomIndex (rs 1) n < n" using isPermutation_set[OF assms(1)] by simp
  show ?thesis
    using n bhxLoop_perm[OF assms(1,2) n c] l
    by (simp add: bidirectionalHeuristicCrossover_def Let_def)
qed

subsection \<open>Jumping gene\<close>

lemma slice_sliceFrom: "slice xs 0 k @ sliceFrom xs k = xs"
  by (simp add: slice_def sliceFrom_def relIndex_def Let_def)

lemma mset_map_partition:
  "mset (map f (filter P xs)) + mset (map f (filter (\<lambda>x. \<not> P x) xs)) = mset (map f xs)"
  by (induction xs) simp_all

lemma jumpingGeneOperator_mset:
  assumes "distinct (genes c)" "valid_rng rs"
  shows "mset (genes (fst (jumpingGeneOperator c PJG q rs))) = mset (genes c)"
proof (cases "rs 0 > PJG")
  case True
  then show ?thesis by (simp only: jumpingGeneOperator_def if_True fst_conv)
next
  case False
  define g where "g = genes c"
  define n where "n = length g"
  define mask where "mask = map (\<lambda>i. if rs (1 + i) < 0.5 then (1::nat) else 0) [0 ..< n]"
  define ex where "ex = map (\<lambda>i. g ! i) (filter (\<lambda>i. mask ! i = 1) [0 ..< n])"
  define re where "re = map (\<lambda>i. g ! i) (filter (\<lambda>i. mask ! i \<noteq> 1) [0 ..< n])"
  define k where "k = min q (int (length ex))"
  define seg where "seg = slice ex 0 k"
  define lo where "lo = sliceFrom ex k"
  define fr where "fr = filter (\<lambda>gene. gene \<notin> set seg) re @ lo"
  define pos where "pos = randomIndex (rs (1 + n)) (length fr + 1)"
  have res: "genes (fst (jumpingGeneOperator c PJG q rs)) = take pos fr @ seg @ drop pos fr"
    unfolding pos_def fr_def lo_def seg_def k_def re_def ex_def mask_def n_def g_def
    using False
    by (simp only: jumpingGeneOperator_def Let_def if_False fst_conv Chromosome.simps)
  have "mset ex + mset re = mset (map (\<lambda>i. g ! i) [0 ..< n])"
    unfolding ex_def re_def by (rule mset_map_partition)
  also have "map (\<lambda>i. g ! i) [0 ..< n] = g" by (simp add: n_def map_nth)
  finally have part: "mset ex + mset re = mset g" .
  then have "mset (ex @ re) = mset g" by simp
  then have "distinct (ex @ re)" using assms(1) g_def by (metis mset_eq_imp_distinct_iff)
  then have disj: "set ex \<inter> set re = {}" by simp
  have sl: "seg @ lo = ex" unfolding seg_def lo_def by (rule slice_sliceFrom)
  then have "set seg \<subseteq> set ex" by (metis set_append Un_upper1)
  then have "filter (\<lambda>gene. gene \<notin> set seg) re = re" using disj by (auto simp: filter_id_conv)
  then have fr: "fr = re @ lo" by (simp add: fr_def)
  have td: "mset (take pos fr) + mset (drop pos fr) = mset fr"
    by (metis append_take_drop_id mset_append)
  have "mset (take pos fr @ seg @ drop pos fr) = (mset (take pos fr) + mset (drop pos fr)) + mset seg"
    by simp
  also have "\<dots> = mset fr + mset seg" by (simp only: td)
  also have "\<dots> = mset re + (mset seg + mset lo)" by (simp add: fr)
  also have "mset seg + mset lo = mset ex" using sl by (metis mset_append)
  also have "mset re + mset ex = mset g" using part by (simp add: add.commute)
  finally show ?thesis by (simp add: res g_def)
qed

lemma jumpingGeneOperator_perm:
  "isPermutation n (genes c) \<Longrightarrow> valid_rng rs \<Longrightarrow>
   isPermutation n (genes (fst (jumpingGeneOperator c PJG q rs)))"
  using jumpingGeneOperator_mset[OF isPermutation_distinct] by (simp add: isPermutation_def)

lemma jumpingGeneOperator_snd:
  "snd (jumpingGeneOperator c PJG q rs) =
     (if rs 0 > PJG then drop_rng 1 rs else drop_rng (length (genes c) + 2) rs)"
  by (simp only: jumpingGeneOperator_def Let_def snd_conv if_distrib[of snd] cong: if_cong)

lemma jumpingGeneOperator_valid:
  "valid_rng rs \<Longrightarrow> valid_rng (snd (jumpingGeneOperator c PJG q rs))"
  by (simp add: jumpingGeneOperator_snd valid_rng_drop)

subsection \<open>Selection returns members\<close>

lemma nth_opt_in: "nth_opt xs i = Some a \<Longrightarrow> a \<in> set xs"
  by (auto simp: nth_opt_def split: if_splits)

lemma rouletteWheelSelect_in:
  "rouletteWheelSelect population fs r = Some c \<Longrightarrow> c \<in> set population"
  unfolding rouletteWheelSelect_def Let_def
  by (auto dest: nth_opt_in split: if_splits option.splits)

lemma rouletteSelection_in:
  "fst (rouletteSelection population Pfit b rs) = Some c \<Longrightarrow> c \<in> set population"
  unfolding rouletteSelection_def Let_def by (auto dest: rouletteWheelSelect_in)

lemma rouletteSelection_snd: "snd (rouletteSelection population Pfit b rs) = drop_rng 2 rs"
  by (simp add: rouletteSelection_def Let_def)

lemma selectParents_spec:
  "valid_rng rs \<Longrightarrow>
   length (fst (selectParents population k Pfit b rs)) = k \<and>
   (\<forall>c. Some c \<in> set (fst (selectParents population k Pfit b rs)) \<longrightarrow> c \<in> set population) \<and>
   valid_rng (snd (selectParents population k Pfit b rs))"
proof (induction k arbitrary: rs)
  case 0
  then show ?case by simp
next
  case (Suc k)
  obtain p rs1 where p: "rouletteSelection population Pfit b rs = (p, rs1)" by fastforce
  have rs1: "rs1 = drop_rng 2 rs" using rouletteSelection_snd[of population Pfit b rs] p by simp
  have v1: "valid_rng rs1" unfolding rs1 by (rule valid_rng_drop[OF Suc.prems])
  have pin: "c \<in> set population" if "p = Some c" for c
    using rouletteSelection_in[of population Pfit b rs c] p that by simp
  show ?case using Suc.IH[OF v1] p pin by (auto simp: split_beta)
qed

subsection \<open>The crossover loop\<close>

lemma parentAt_in: "parentAt parents i = Some p \<Longrightarrow> Some p \<in> set parents"
  by (auto simp: parentAt_def dest: nth_opt_in split: if_splits option.splits)

lemma crossoverLoop_perm:
  "crossoverLoop parents dm targetCount i offspring rs = Inr (result, rs') \<Longrightarrow>
   valid_rng rs \<Longrightarrow>
   (\<forall>p. Some p \<in> set parents \<longrightarrow> isPermutation n (genes p)) \<Longrightarrow>
   (\<forall>c\<in>set offspring. isPermutation n (genes c)) \<Longrightarrow>
   (\<forall>c\<in>set result. isPermutation n (genes c)) \<and> valid_rng rs'"
proof (induction parents dm targetCount i offspring rs rule: crossoverLoop.induct)
  case (1 parents dm targetCount i offspring rs)
  show ?case
  proof (cases "i < targetCount")
    case False
    then have "result = take targetCount offspring" "rs' = rs"
      using "1.prems"(1) by (simp_all add: crossoverLoop.simps[of parents dm targetCount i])
    then show ?thesis using "1.prems" by (auto dest: in_set_takeD)
  next
    case True
    from "1.prems"(1) True obtain parent1 where pa1: "parentAt parents i = Some parent1"
      by (subst (asm) crossoverLoop.simps) (auto split: option.splits)
    have q1: "isPermutation n (genes parent1)"
      using pa1 "1.prems"(3) by (auto dest: parentAt_in)
    show ?thesis
    proof (cases "parentAt parents (i + 1)")
      case None
      from "1.prems"(1) True pa1 None have one: "length (genes parent1) = 1"
        by (subst (asm) crossoverLoop.simps) (auto split: if_splits)
      from "1.prems"(1) True pa1 None one obtain c1 rs1 where
        b1: "bidirectionalHeuristicCrossover parent1 parent1 dm rs = Inr (c1, rs1)"
        by (subst (asm) crossoverLoop.simps) (auto split: sum.splits)
      have n: "0 < n"
        using bidirectionalHeuristicCrossover_perm[OF q1 q1 "1.prems"(2), of dm] b1 by (cases "n = 0") auto
      have c1: "isPermutation n (genes c1)" and rs1: "rs1 = drop_rng 2 rs"
        using bidirectionalHeuristicCrossover_perm[OF q1 q1 "1.prems"(2), of dm] b1 n by auto
      have v1: "valid_rng rs1" unfolding rs1 by (rule valid_rng_drop[OF "1.prems"(2)])
      from "1.prems"(1) True pa1 None one b1 have L: "\<not> length (offspring @ [c1]) < targetCount"
        by (subst (asm) crossoverLoop.simps) (auto split: if_splits)
      have r: "crossoverLoop parents dm targetCount (i + 2) (offspring @ [c1]) rs1 = Inr (result, rs')"
        using "1.prems"(1) True pa1 None one b1 L by (subst (asm) crossoverLoop.simps) simp
      show ?thesis
        using "1.IH"(1)[OF True refl pa1 None one b1 refl L r v1 "1.prems"(3)]
          c1 "1.prems"(4) by simp
    next
      case (Some parent2)
      note pa = pa1 Some
      have q2: "isPermutation n (genes parent2)"
        using pa "1.prems"(3) by (auto dest: parentAt_in)
      from "1.prems"(1) True pa obtain c1 rs1 where
        b1: "bidirectionalHeuristicCrossover parent1 parent2 dm rs = Inr (c1, rs1)"
        by (subst (asm) crossoverLoop.simps) (auto split: sum.splits)
      have n: "0 < n"
        using bidirectionalHeuristicCrossover_perm[OF q1 q2 "1.prems"(2), of dm] b1 by (cases "n = 0") auto
      have c1: "isPermutation n (genes c1)" and rs1: "rs1 = drop_rng 2 rs"
        using bidirectionalHeuristicCrossover_perm[OF q1 q2 "1.prems"(2), of dm] b1 n by auto
      have v1: "valid_rng rs1" unfolding rs1 by (rule valid_rng_drop[OF "1.prems"(2)])
      show ?thesis
      proof (cases "length (offspring @ [c1]) < targetCount")
        case False
        have r: "crossoverLoop parents dm targetCount (i + 2) (offspring @ [c1]) rs1 = Inr (result, rs')"
          using "1.prems"(1) True pa b1 False by (subst (asm) crossoverLoop.simps) simp
        show ?thesis
          using "1.IH"(3)[OF True refl pa(1) pa(2) b1 refl False r v1 "1.prems"(3)]
            c1 "1.prems"(4) by simp
      next
        case L: True
        from "1.prems"(1) True pa b1 L obtain c2 rs2 where
          b2: "bidirectionalHeuristicCrossover parent2 parent1 dm rs1 = Inr (c2, rs2)"
          by (subst (asm) crossoverLoop.simps) (auto split: sum.splits)
        have c2: "isPermutation n (genes c2)" and rs2: "rs2 = drop_rng 2 rs1"
          using bidirectionalHeuristicCrossover_perm[OF q2 q1 v1, of dm] b2 n by auto
        have v2: "valid_rng rs2" unfolding rs2 by (rule valid_rng_drop[OF v1])
        have r: "crossoverLoop parents dm targetCount (i + 2) (offspring @ [c1, c2]) rs2 = Inr (result, rs')"
          using "1.prems"(1) True pa b1 b2 L by (subst (asm) crossoverLoop.simps) simp
        show ?thesis
          using "1.IH"(2)[OF True refl pa(1) pa(2) b1 refl L b2 refl r v2 "1.prems"(3)]
            c1 c2 "1.prems"(4) by simp
      qed
    qed
  qed
qed

lemma performCrossover_perm:
  "performCrossover parents dm oc rs = Inr (result, rs') \<Longrightarrow> valid_rng rs \<Longrightarrow>
   (\<forall>p. Some p \<in> set parents \<longrightarrow> isPermutation n (genes p)) \<Longrightarrow>
   (\<forall>c\<in>set result. isPermutation n (genes c)) \<and> valid_rng rs'"
  unfolding performCrossover_def Let_def
  by (rule crossoverLoop_perm) auto

subsection \<open>Mutation preserves the cities of a tour\<close>

lemma redrawPos2_spec:
  assumes "redrawPos2 n pos1 pos2 rs = Some y"
  shows "valid_rng rs \<longrightarrow> valid_rng (snd y) \<and> (pos2 < n \<longrightarrow> fst y < n)"
proof (rule redrawPos2.raw_induct[where P =
    "\<lambda>n pos1 pos2 rs y. valid_rng rs \<longrightarrow> valid_rng (snd y) \<and> (pos2 < n \<longrightarrow> fst y < n)", OF _ assms],
    goal_cases)
  case (1 redraw n pos1 pos2 rs y)
  show ?case
  proof (intro impI)
    assume v: "valid_rng rs"
    show "valid_rng (snd y) \<and> (pos2 < n \<longrightarrow> fst y < n)"
    proof (cases "pos2 = pos1")
      case True
      then have r: "redraw n pos1 (randomIndex (rs 0) n) (drop_rng 1 rs) = Some y"
        using 1(2) by simp
      have "randomIndex (rs 0) n < n" if "pos2 < n"
        using valid_rng_nth[OF v, of 0] that by (intro randomIndex_less) auto
      then show ?thesis using 1(1)[OF r] valid_rng_drop[OF v] by simp
    next
      case False
      then show ?thesis using 1(2) v by auto
    qed
  qed
qed

lemma swapMutation_spec:
  assumes "swapMutation c rs = Some (c', rs')" "valid_rng rs"
  shows "mset (genes c') = mset (genes c) \<and> valid_rng rs'"
proof -
  define n where "n = length (genes c)"
  define pos1 where "pos1 = randomIndex (rs 0) n"
  obtain pos2 where r: "redrawPos2 n pos1 (randomIndex (rs 1) n) (drop_rng 2 rs) = Some (pos2, rs')"
    and c': "c' = \<lparr>genes = swap (genes c) pos1 pos2, fitness = 0, distance = 0\<rparr>"
    using assms(1) by (auto simp: swapMutation_def Let_def n_def pos1_def split: option.splits)
  show ?thesis
  proof (cases "n = 0")
    case True
    then show ?thesis
      using redrawPos2_spec[OF r] c' valid_rng_drop[OF assms(2)]
      by (simp add: n_def swap_def)
  next
    case False
    then have n: "0 < n" by simp
    have p1: "pos1 < n" unfolding pos1_def using valid_rng_nth[OF assms(2), of 0] n by (intro randomIndex_less) auto
    have "randomIndex (rs 1) n < n" using valid_rng_nth[OF assms(2), of 1] n by (intro randomIndex_less) auto
    then have "pos2 < n \<and> valid_rng rs'"
      using redrawPos2_spec[OF r] valid_rng_drop[OF assms(2)] by simp
    then show ?thesis using p1 c' by (simp add: mset_swap' n_def)
  qed
qed


lemma mset_take_drop: "mset (take k xs) + mset (drop k xs) = mset xs"
  by (metis append_take_drop_id mset_append)

lemma swap_Nil [simp]: "swap [] i j = []"
  by (simp add: swap_def)

lemma reverseBetween_mset:
  "pos2 < length g \<or> g = [] \<Longrightarrow> mset (reverseBetween g pos1 pos2) = mset g"
proof (induction g pos1 pos2 rule: reverseBetween.induct)
  case (1 g pos1 pos2)
  show ?case
  proof (cases "pos1 < pos2")
    case True
    have "mset (reverseBetween (swap g pos1 pos2) (pos1 + 1) (pos2 - 1)) = mset (swap g pos1 pos2)"
      using "1.prems" True by (intro "1.IH") auto
    also have "\<dots> = mset g"
    proof (cases "g = []")
      case True
      then show ?thesis by simp
    next
      case False
      then show ?thesis using "1.prems" True by (intro mset_swap') auto
    qed
    finally show ?thesis using True by (subst reverseBetween.simps) simp
  next
    case False
    then show ?thesis by (subst reverseBetween.simps) simp
  qed
qed

lemma inverseMutation_spec:
  assumes "valid_rng rs"
  shows "mset (genes (fst (inverseMutation c rs))) = mset (genes c) \<and>
         valid_rng (snd (inverseMutation c rs))"
proof (cases "genes c = []")
  case True
  then show ?thesis using valid_rng_drop[OF assms]
    by (simp add: inverseMutation_def Let_def split_beta reverseBetween_mset)
next
  case False
  then have n: "0 < length (genes c)" by simp
  have a: "randomIndex (rs 0) (length (genes c)) < length (genes c)"
    using valid_rng_nth[OF assms, of 0] n by (intro randomIndex_less) auto
  have b: "randomIndex (rs 1) (length (genes c)) < length (genes c)"
    using valid_rng_nth[OF assms, of 1] n by (intro randomIndex_less) auto
  show ?thesis using a b valid_rng_drop[OF assms]
    by (simp add: inverseMutation_def Let_def split_beta reverseBetween_mset)
qed



lemma indexOf_spec:
  "a \<in> set xs \<Longrightarrow> 0 \<le> indexOf xs a \<and> nat (indexOf xs a) < length xs \<and> xs ! nat (indexOf xs a) = a"
proof (induction xs)
  case Nil
  then show ?case by simp
next
  case (Cons b bs)
  show ?case
  proof (cases "b = a")
    case True
    then show ?thesis by simp
  next
    case False
    then have "a \<in> set bs" using Cons.prems by simp
    from Cons.IH[OF this] have ih: "0 \<le> indexOf bs a" "nat (indexOf bs a) < length bs"
      "bs ! nat (indexOf bs a) = a" by auto
    have e: "indexOf (b # bs) a = indexOf bs a + 1" using False ih(1) by (simp add: Let_def)
    have n: "nat (indexOf bs a + 1) = Suc (nat (indexOf bs a))" using ih(1) by simp
    show ?thesis unfolding e n using ih by simp
  qed
qed



lemma mset_removeAt_insertAt:
  assumes "p < length g"
  shows "mset (insertAt (removeAt g p) k (g ! p)) = mset g"
proof -
  have "mset (insertAt (removeAt g p) k (g ! p)) = mset (removeAt g p) + {#g ! p#}"
    by (simp add: insertAt_def mset_take_drop)
  also have "mset (removeAt g p) + {#g ! p#} = mset (take p g @ g ! p # drop (p + 1) g)"
    by (simp add: removeAt_def)
  also have "take p g @ g ! p # drop (p + 1) g = g"
    using id_take_nth_drop[OF assms] by simp
  finally show ?thesis .
qed



lemma nearestStep_alt:
  "nearestStep g pos1 dm i st = st \<or> (\<exists>d. nearestStep g pos1 dm i st = Some (g ! i, d))"
proof (cases "g ! i = g ! pos1 \<or> i = (pos1 + length g - 1) mod length g \<or> i = (pos1 + 1) mod length g")
  case True
  then have "nearestStep g pos1 dm i st = st"
    unfolding nearestStep_def Let_def by presburger
  then show ?thesis by simp
next
  case False
  then have e: "nearestStep g pos1 dm i st =
      (case st of None \<Rightarrow> Some (g ! i, dm ! (g ! pos1) ! (g ! i))
       | Some (nearestCity, minDistance) \<Rightarrow>
           if dm ! (g ! pos1) ! (g ! i) < minDistance then Some (g ! i, dm ! (g ! pos1) ! (g ! i)) else st)"
    unfolding nearestStep_def Let_def by presburger
  show ?thesis
  proof (cases st)
    case None
    then show ?thesis using e by simp
  next
    case (Some a)
    obtain c d where a: "a = (c, d)" by (cases a)
    show ?thesis using e unfolding Some a by simp
  qed
qed

lemma nearestNonAdjacent_in:
  assumes "nearestNonAdjacent g pos1 dm = Some (city, d)"
  shows "city \<in> set g"
proof -
  have inv: "(\<forall>c d. st = Some (c, d) \<longrightarrow> c \<in> set g) \<Longrightarrow> \<forall>i\<in>set ixs. i < length g \<Longrightarrow>
        \<forall>c d. fold (nearestStep g pos1 dm) ixs st = Some (c, d) \<longrightarrow> c \<in> set g" for ixs st
  proof (induction ixs arbitrary: st)
    case Nil
    then show ?case by simp
  next
    case (Cons i ixs)
    have ig: "g ! i \<in> set g" using Cons.prems(2) by simp
    have "\<forall>c d. nearestStep g pos1 dm i st = Some (c, d) \<longrightarrow> c \<in> set g"
    proof (intro allI impI)
      fix c d assume e: "nearestStep g pos1 dm i st = Some (c, d)"
      from nearestStep_alt[of g pos1 dm i st] show "c \<in> set g"
      proof
        assume "nearestStep g pos1 dm i st = st"
        then have "st = Some (c, d)" using e by simp
        then show ?thesis using Cons.prems(1) by blast
      next
        assume "\<exists>d. nearestStep g pos1 dm i st = Some (g ! i, d)"
        then have "c = g ! i" using e by auto
        then show ?thesis using ig by simp
      qed
    qed
    moreover have "\<forall>j\<in>set ixs. j < length g" using Cons.prems(2) by simp
    ultimately have "\<forall>c d. fold (nearestStep g pos1 dm) ixs (nearestStep g pos1 dm i st) = Some (c, d) \<longrightarrow> c \<in> set g"
      by (rule Cons.IH)
    then show ?case by simp
  qed
  have "\<forall>c d. fold (nearestStep g pos1 dm) [0 ..< length g] None = Some (c, d) \<longrightarrow> c \<in> set g"
    by (rule inv) simp_all
  then show ?thesis using assms unfolding nearestNonAdjacent_def by blast
qed


lemma heuristicMutation_spec:
  assumes "valid_rng rs"
  shows "mset (genes (fst (heuristicMutation c dm rs))) = mset (genes c) \<and>
         valid_rng (snd (heuristicMutation c dm rs))"
proof -
  define g where "g = genes c"
  define pos1 where "pos1 = randomIndex (rs 0) (length g)"
  have v: "valid_rng (snd (heuristicMutation c dm rs))"
    using valid_rng_drop[OF assms] by (simp add: heuristicMutation_def Let_def)
  have "mset (genes (fst (heuristicMutation c dm rs))) = mset g"
  proof (cases "nearestNonAdjacent g pos1 dm")
    case None
    then show ?thesis by (simp add: heuristicMutation_def Let_def g_def pos1_def)
  next
    case (Some a)
    obtain city d where a: "a = (city, d)" by (cases a)
    have cin: "city \<in> set g" using nearestNonAdjacent_in[of g pos1 dm city d] Some a by simp
    note ix = indexOf_spec[OF cin]
    have "genes (fst (heuristicMutation c dm rs)) =
        insertAt (removeAt g (nat (indexOf g city)))
          (nat (indexOf (removeAt g (nat (indexOf g city))) (g ! pos1) + 1)) city"
      using Some a by (simp add: heuristicMutation_def Let_def g_def pos1_def)
    also have "mset \<dots> = mset g"
      using mset_removeAt_insertAt[of "nat (indexOf g city)" g] ix by simp
    finally show ?thesis .
  qed
  then show ?thesis using v by (simp add: g_def)
qed

lemma combinationMutation_spec:
  assumes "combinationMutation c Ps b dm rs = Some (c', rs')" "valid_rng rs"
  shows "mset (genes c') = mset (genes c) \<and> valid_rng rs'"
proof -
  note v = valid_rng_drop[OF assms(2), of 1]
  consider (s) "lessEq (rs 0) Ps" | (i) "\<not> lessEq (rs 0) Ps" "lessEq (rs 0) (plusFinite Ps b)"
    | (h) "\<not> lessEq (rs 0) Ps" "\<not> lessEq (rs 0) (plusFinite Ps b)"
    by blast
  then show ?thesis
  proof cases
    case s
    then have "swapMutation c (drop_rng 1 rs) = Some (c', rs')"
      using assms(1) by (simp add: combinationMutation_def Let_def)
    then show ?thesis using swapMutation_spec v by blast
  next
    case i
    then have "inverseMutation c (drop_rng 1 rs) = (c', rs')"
      using assms(1) by (simp add: combinationMutation_def Let_def)
    then show ?thesis using inverseMutation_spec[OF v, of c] by simp
  next
    case h
    then have "heuristicMutation c dm (drop_rng 1 rs) = (c', rs')"
      using assms(1) by (simp add: combinationMutation_def Let_def)
    then show ?thesis using heuristicMutation_spec[OF v, of c dm] by simp
  qed
qed

lemma mutateEach_spec:
  "mutateEach cs Ps b dm rs = Some (cs', rs') \<Longrightarrow> valid_rng rs \<Longrightarrow>
   (\<forall>c\<in>set cs. isPermutation n (genes c)) \<Longrightarrow>
   (\<forall>c\<in>set cs'. isPermutation n (genes c)) \<and> length cs' = length cs \<and> valid_rng rs'"
proof (induction cs arbitrary: rs cs')
  case Nil
  then show ?case by simp
next
  case (Cons c cs)
  from Cons.prems(1) obtain c1 rs1 where c1: "combinationMutation c Ps b dm rs = Some (c1, rs1)"
    by (auto split: option.splits)
  from Cons.prems(1) c1 obtain cs1 where cs1: "mutateEach cs Ps b dm rs1 = Some (cs1, rs')"
    and e: "cs' = c1 # cs1"
    by (auto split: option.splits)
  note m = combinationMutation_spec[OF c1 Cons.prems(2)]
  have p1: "isPermutation n (genes c1)" using m Cons.prems(3) by (auto intro: isPermutation_mset)
  show ?case using Cons.IH[OF cs1] m p1 e Cons.prems(3) by simp
qed

lemma genes_rescore [simp]: "genes (rescore dm c) = genes c"
  by (simp add: rescore_def Let_def)

lemma performMutation_spec:
  assumes "performMutation cs Ps b dm rs = Some (cs', rs')" "valid_rng rs"
    "\<forall>c\<in>set cs. isPermutation n (genes c)"
  shows "(\<forall>c\<in>set cs'. isPermutation n (genes c)) \<and> length cs' = length cs \<and> valid_rng rs'"
proof -
  from assms(1) obtain m where m: "mutateEach cs Ps b dm rs = Some (m, rs')"
    and e: "cs' = calculateFitnessForChromosomes m dm"
    by (auto simp: performMutation_def split: option.splits)
  show ?thesis using mutateEach_spec[OF m assms(2,3)] e
    by (auto simp: calculateFitnessForChromosomes_def)
qed

subsection \<open>2-opt preserves the cities of a tour\<close>

lemma twoOptStep_mset:
  assumes "i < j"
  shows "mset (fst (twoOptStep dm n i j st)) = mset (fst st)"
proof -
  define g where "g = fst st"
  have d: "drop (j + 1) g = drop (j - i) (drop (i + 1) g)" using assms by simp
  have "mset (take (i + 1) g @ rev (take (j - i) (drop (i + 1) g)) @ drop (j + 1) g)
      = mset (take (i + 1) g) + (mset (take (j - i) (drop (i + 1) g)) + mset (drop (j - i) (drop (i + 1) g)))"
    unfolding d by simp
  also have "\<dots> = mset g" by (simp only: mset_take_drop)
  finally show ?thesis
    unfolding twoOptStep_def Let_def g_def by (simp only: fst_conv split: if_split) simp
qed

lemma twoOptRow_mset:
  "\<forall>j\<in>set js. i < j \<Longrightarrow> mset (fst (fold (\<lambda>j st. twoOptStep dm n i j st) js st)) = mset (fst st)"
  by (induction js arbitrary: st) (simp_all add: twoOptStep_mset)

lemma twoOptPass_mset: "mset (fst (twoOptPass dm n st)) = mset (fst st)"
proof -
  have "mset (fst (fold (\<lambda>i st. fold (\<lambda>j st. twoOptStep dm n i j st) [i + 1 ..< n] st) is st)) = mset (fst st)"
    for "is" st
    by (induction "is" arbitrary: st) (simp_all add: twoOptRow_mset)
  then show ?thesis by (simp add: twoOptPass_def)
qed

lemma twoOptLoop_mset:
  assumes "twoOptLoop dm n g = Some g'"
  shows "mset g' = mset g"
proof (rule twoOptLoop.raw_induct[where P = "\<lambda>dm n g g'. mset g' = mset g", OF _ assms], goal_cases)
  case (1 loop dm n g g')
  show ?case
  proof (cases "snd (twoOptPass dm n (g, False))")
    case True
    then have "loop dm n (fst (twoOptPass dm n (g, False))) = Some g'" using 1(2) by (simp add: Let_def)
    from 1(1)[OF this] show ?thesis using twoOptPass_mset[of dm n "(g, False)"] by simp
  next
    case False
    then have "g' = fst (twoOptPass dm n (g, False))" using 1(2) by (simp add: Let_def)
    then show ?thesis using twoOptPass_mset[of dm n "(g, False)"] by simp
  qed
qed

lemma twoOptOperator_mset:
  "twoOptOperator c dm = Some c' \<Longrightarrow> mset (genes c') = mset (genes c)"
  by (auto simp: twoOptOperator_def Let_def split: option.splits dest: twoOptLoop_mset)

lemma twoOptEach_perm:
  "twoOptEach k cs dm = Some cs' \<Longrightarrow> \<forall>c\<in>set cs. isPermutation n (genes c) \<Longrightarrow>
   (\<forall>c\<in>set cs'. isPermutation n (genes c)) \<and> length cs' = length cs"
proof (induction k cs dm arbitrary: cs' rule: twoOptEach.induct)
  case (1 k dm)
  then show ?case by simp
next
  case (2 chr rest dm)
  then show ?case by auto
next
  case (3 k chr rest dm)
  from "3.prems"(1) obtain c where c: "twoOptOperator chr dm = Some c" by (auto split: option.splits)
  from "3.prems"(1) c obtain cs1 where cs1: "twoOptEach k rest dm = Some cs1" and e: "cs' = c # cs1"
    by (auto split: option.splits)
  have "isPermutation n (genes c)"
    using twoOptOperator_mset[OF c] "3.prems"(2) by (auto intro: isPermutation_mset)
  then show ?case using "3.IH"[OF c cs1] "3.prems"(2) e by simp
qed

lemma applyTwoOptToPopulation_perm:
  "applyTwoOptToPopulation cs dm all topN = Some cs' \<Longrightarrow> \<forall>c\<in>set cs. isPermutation n (genes c) \<Longrightarrow>
   (\<forall>c\<in>set cs'. isPermutation n (genes c)) \<and> length cs' = length cs"
  unfolding applyTwoOptToPopulation_def
  by (cases all) (auto dest!: twoOptEach_perm[where n = n])

subsection \<open>The other operators on populations\<close>

lemma applyJumpingGeneToPopulation_perm:
  "valid_rng rs \<Longrightarrow> \<forall>c\<in>set cs. isPermutation n (genes c) \<Longrightarrow>
   (\<forall>c\<in>set (fst (applyJumpingGeneToPopulation cs PJG q rs)). isPermutation n (genes c)) \<and>
   length (fst (applyJumpingGeneToPopulation cs PJG q rs)) = length cs \<and>
   valid_rng (snd (applyJumpingGeneToPopulation cs PJG q rs))"
proof (induction cs arbitrary: rs)
  case Nil
  then show ?case by simp
next
  case (Cons c cs)
  have p: "isPermutation n (genes (fst (jumpingGeneOperator c PJG q rs)))"
    using Cons.prems by (intro jumpingGeneOperator_perm) auto
  have v: "valid_rng (snd (jumpingGeneOperator c PJG q rs))"
    by (rule jumpingGeneOperator_valid[OF Cons.prems(1)])
  show ?case using Cons.IH[OF v] Cons.prems(2) p by (simp add: split_beta)
qed

lemma uniqueOperator_perm:
  assumes "valid_rng rs" "\<forall>c\<in>set cs. isPermutation n (genes c)"
  shows "(\<forall>c\<in>set (fst (uniqueOperator cs n rs)). isPermutation n (genes c)) \<and>
         length (fst (uniqueOperator cs n rs)) = length cs \<and>
         valid_rng (snd (uniqueOperator cs n rs))"
proof -
  note U = uniqueOperator_stream[of cs n rs]
  have "isPermutation n (genes c)" if "c \<in> set (fst (uniqueOperator cs n rs))" for c
  proof -
    from that obtain i where i: "i < length cs" "fst (uniqueOperator cs n rs) ! i = c"
      using U by (auto simp: in_set_conv_nth)
    show ?thesis
    proof (cases "laterDuplicate cs i")
      case True
      then have "c = freshTour n (drop_rng (duplicatesBefore cs i * (n - 1)) rs)"
        using U i by blast
      then show ?thesis using freshTour_props valid_rng_drop[OF assms(1)] by blast
    next
      case False
      then have "c = cs ! i" using U i by blast
      then show ?thesis using assms(2) i(1) by auto
    qed
  qed
  moreover have "valid_rng (snd (uniqueOperator cs n rs))"
    using U valid_rng_drop[OF assms(1)] by simp
  ultimately show ?thesis using U by blast
qed

lemma set_slice: "set (slice xs a b) \<subseteq> set xs"
  unfolding slice_def Let_def by (meson in_set_dropD in_set_takeD subsetI)

lemma set_elitism: "set (elitism previous offspring P E) \<subseteq> set previous \<union> set offspring"
proof -
  have a: "set (slice (sortByDistance previous) 0 (int E)) \<subseteq> set previous"
    using set_slice[of "sortByDistance previous"] by simp
  have b: "set (slice (sortByDistance offspring) 0 (int P - int E)) \<subseteq> set offspring"
    using set_slice[of "sortByDistance offspring"] by simp
  show ?thesis unfolding elitism_def Let_def using a b by auto
qed

subsection \<open>One generation of GA-JGHO\<close>

lemma GAJGHO_runGeneration_cases:
  assumes "GAJGHO_runGeneration st rs = Some (Inr (st', pop, rs'))"
  obtains parents rs1 o1 rs2 o2 rs3 o4 rs4 o5 o7 where
    "selectParents (jg_currentPopulation st) (populationSize (jg_params st))
       (calculatePfit (jg_generation st) (maxGenerations (jg_params st)) (PfitMax (jg_params st)) (PfitMin (jg_params st)))
       (betaParam (jg_params st)) rs = (parents, rs1)"
    "performCrossover parents (jg_distanceMatrix st) (Some (populationSize (jg_params st))) rs1 = Inr (o1, rs2)"
    "uniqueOperator o1 (length (jg_cities st)) rs2 = (o2, rs3)"
    "performMutation (calculateFitnessAfterUnique o2 (jg_distanceMatrix st))
       (calculatePs (jg_generation st) (maxGenerations (jg_params st)) (PsMax (jg_params st)) (PsMin (jg_params st)))
       (betaParam (jg_params st)) (jg_distanceMatrix st) rs3 = Some (o4, rs4)"
    "applyJumpingGeneToPopulation o4 (PJGParam (jg_params st)) (qParam (jg_params st)) rs4 = (o5, rs')"
    "applyTwoOptToPopulation (calculateFitnessAfterJumping o5 (jg_distanceMatrix st)) (jg_distanceMatrix st) False
       (nat \<lfloor>real (populationSize (jg_params st)) * 0.2\<rfloor>) = Some o7"
    "st' = st\<lparr>jg_currentPopulation :=
               elitism (jg_currentPopulation st) o7 (populationSize (jg_params st)) (eliteCount (jg_params st)),
             jg_generation := jg_generation st + 1\<rparr>"
    "pop = GAJGHO_getPopulation st'"
proof -
  obtain parents rs1 where sp: "selectParents (jg_currentPopulation st) (populationSize (jg_params st))
       (calculatePfit (jg_generation st) (maxGenerations (jg_params st)) (PfitMax (jg_params st)) (PfitMin (jg_params st)))
       (betaParam (jg_params st)) rs = (parents, rs1)" by fastforce
  note R = assms[unfolded GAJGHO_runGeneration_def Let_def sp prod.case]
  from R obtain o1 rs2 where pc:
    "performCrossover parents (jg_distanceMatrix st) (Some (populationSize (jg_params st))) rs1 = Inr (o1, rs2)"
    by (cases "performCrossover parents (jg_distanceMatrix st) (Some (populationSize (jg_params st))) rs1") auto
  obtain o2 rs3 where uo: "uniqueOperator o1 (length (jg_cities st)) rs2 = (o2, rs3)" by fastforce
  note R2 = R[unfolded pc sum.case prod.case uo]
  from R2 obtain o4 rs4 where pm: "performMutation (calculateFitnessAfterUnique o2 (jg_distanceMatrix st))
       (calculatePs (jg_generation st) (maxGenerations (jg_params st)) (PsMax (jg_params st)) (PsMin (jg_params st)))
       (betaParam (jg_params st)) (jg_distanceMatrix st) rs3 = Some (o4, rs4)"
    by (cases "performMutation (calculateFitnessAfterUnique o2 (jg_distanceMatrix st))
       (calculatePs (jg_generation st) (maxGenerations (jg_params st)) (PsMax (jg_params st)) (PsMin (jg_params st)))
       (betaParam (jg_params st)) (jg_distanceMatrix st) rs3") auto
  obtain o5 rs5 where jg: "applyJumpingGeneToPopulation o4 (PJGParam (jg_params st)) (qParam (jg_params st)) rs4 = (o5, rs5)"
    by fastforce
  note R3 = R2[unfolded pm option.case prod.case jg]
  from R3 obtain o7 where t: "applyTwoOptToPopulation (calculateFitnessAfterJumping o5 (jg_distanceMatrix st)) (jg_distanceMatrix st) False
       (nat \<lfloor>real (populationSize (jg_params st)) * 0.2\<rfloor>) = Some o7"
    by (cases "applyTwoOptToPopulation (calculateFitnessAfterJumping o5 (jg_distanceMatrix st)) (jg_distanceMatrix st) False
       (nat \<lfloor>real (populationSize (jg_params st)) * 0.2\<rfloor>)") auto
  note R4 = R3[unfolded t option.case]
  from R4 have "st' = st\<lparr>jg_currentPopulation :=
               elitism (jg_currentPopulation st) o7 (populationSize (jg_params st)) (eliteCount (jg_params st)),
             jg_generation := jg_generation st + 1\<rparr>" "pop = GAJGHO_getPopulation st'" "rs' = rs5"
    by auto
  then show ?thesis using that[OF sp pc uo pm _ t] jg by simp
qed

lemma GAJGHO_runGeneration_perm:
  assumes run: "GAJGHO_runGeneration st rs = Some (Inr (st', pop, rs'))"
    and v: "valid_rng rs"
    and inv: "\<forall>c\<in>set (jg_currentPopulation st). isPermutation (length (jg_cities st)) (genes c)"
  shows "jg_cities st' = jg_cities st \<and>
         (\<forall>c\<in>set (jg_currentPopulation st'). isPermutation (length (jg_cities st)) (genes c)) \<and>
         valid_rng rs'"
proof -
  define n where "n = length (jg_cities st)"
  from run obtain parents rs1 o1 rs2 o2 rs3 o4 rs4 o5 o7 where
    sp: "selectParents (jg_currentPopulation st) (populationSize (jg_params st))
       (calculatePfit (jg_generation st) (maxGenerations (jg_params st)) (PfitMax (jg_params st)) (PfitMin (jg_params st)))
       (betaParam (jg_params st)) rs = (parents, rs1)" and
    pc: "performCrossover parents (jg_distanceMatrix st) (Some (populationSize (jg_params st))) rs1 = Inr (o1, rs2)" and
    uo: "uniqueOperator o1 (length (jg_cities st)) rs2 = (o2, rs3)" and
    pm: "performMutation (calculateFitnessAfterUnique o2 (jg_distanceMatrix st))
       (calculatePs (jg_generation st) (maxGenerations (jg_params st)) (PsMax (jg_params st)) (PsMin (jg_params st)))
       (betaParam (jg_params st)) (jg_distanceMatrix st) rs3 = Some (o4, rs4)" and
    jg: "applyJumpingGeneToPopulation o4 (PJGParam (jg_params st)) (qParam (jg_params st)) rs4 = (o5, rs')" and
    t: "applyTwoOptToPopulation (calculateFitnessAfterJumping o5 (jg_distanceMatrix st)) (jg_distanceMatrix st) False
       (nat \<lfloor>real (populationSize (jg_params st)) * 0.2\<rfloor>) = Some o7" and
    st': "st' = st\<lparr>jg_currentPopulation :=
               elitism (jg_currentPopulation st) o7 (populationSize (jg_params st)) (eliteCount (jg_params st)),
             jg_generation := jg_generation st + 1\<rparr>"
    by (rule GAJGHO_runGeneration_cases)
  note S = selectParents_spec[OF v, of "jg_currentPopulation st" "populationSize (jg_params st)"
      "calculatePfit (jg_generation st) (maxGenerations (jg_params st)) (PfitMax (jg_params st)) (PfitMin (jg_params st))"
      "betaParam (jg_params st)", unfolded sp fst_conv snd_conv]
  have v1: "valid_rng rs1" using S by simp
  have pp: "\<forall>p. Some p \<in> set parents \<longrightarrow> isPermutation n (genes p)"
    using S inv by (auto simp: n_def)
  note C = performCrossover_perm[OF pc v1 pp]
  have v2: "valid_rng rs2" and p1: "\<forall>c\<in>set o1. isPermutation n (genes c)" using C by auto
  note U = uniqueOperator_perm[OF v2 p1, unfolded n_def uo fst_conv snd_conv, folded n_def]
  have v3: "valid_rng rs3" and p2: "\<forall>c\<in>set o2. isPermutation n (genes c)" using U by auto
  have p3: "\<forall>c\<in>set (calculateFitnessAfterUnique o2 (jg_distanceMatrix st)). isPermutation n (genes c)"
    using p2 by (auto simp: calculateFitnessAfterUnique_def)
  note M = performMutation_spec[OF pm v3 p3]
  have v4: "valid_rng rs4" and p4: "\<forall>c\<in>set o4. isPermutation n (genes c)" using M by auto
  note J = applyJumpingGeneToPopulation_perm[OF v4 p4, of "PJGParam (jg_params st)" "qParam (jg_params st)",
      unfolded jg fst_conv snd_conv]
  have v5: "valid_rng rs'" and p5: "\<forall>c\<in>set o5. isPermutation n (genes c)" using J by auto
  have p6: "\<forall>c\<in>set (calculateFitnessAfterJumping o5 (jg_distanceMatrix st)). isPermutation n (genes c)"
    using p5 by (auto simp: calculateFitnessAfterJumping_def)
  have p7: "\<forall>c\<in>set o7. isPermutation n (genes c)"
    using applyTwoOptToPopulation_perm[OF t p6] by simp
  have "\<forall>c\<in>set (jg_currentPopulation st'). isPermutation n (genes c)"
    using set_elitism[of "jg_currentPopulation st" o7 "populationSize (jg_params st)" "eliteCount (jg_params st)"]
      p7 inv by (auto simp: st' n_def)
  then show ?thesis using v5 by (simp add: st' n_def)
qed

lemma GAJGHO_generations_perm:
  "GAJGHO_generations k st rs = Some (Inr (st', rs')) \<Longrightarrow> valid_rng rs \<Longrightarrow>
   \<forall>c\<in>set (jg_currentPopulation st). isPermutation (length (jg_cities st)) (genes c) \<Longrightarrow>
   jg_cities st' = jg_cities st \<and>
   (\<forall>c\<in>set (jg_currentPopulation st'). isPermutation (length (jg_cities st)) (genes c)) \<and>
   valid_rng rs'"
proof (induction k arbitrary: st rs)
  case 0
  then show ?case by simp
next
  case (Suc k)
  from Suc.prems(1) obtain st1 pop rs1 where
    r: "GAJGHO_runGeneration st rs = Some (Inr (st1, pop, rs1))" and
    g: "GAJGHO_generations k st1 rs1 = Some (Inr (st', rs'))"
    by (auto split: option.splits sum.splits)
  note A = GAJGHO_runGeneration_perm[OF r Suc.prems(2,3)]
  from A have i1: "\<forall>c\<in>set (jg_currentPopulation st1). isPermutation (length (jg_cities st1)) (genes c)"
    by simp
  from Suc.IH[OF g _ i1] A show ?case by simp
qed

lemma GAJGHO_initialize_cities: "jg_cities (fst (GAJGHO_initialize st now rs)) = jg_cities st"
  by (simp add: GAJGHO_initialize_def split_beta)

lemma GAJGHO_initialize_valid: "valid_rng rs \<Longrightarrow> valid_rng (snd (GAJGHO_initialize st now rs))"
  using initializePopulation_spec[of rs "jg_cities st" "populationSize (jg_params st)"]
  by (simp add: GAJGHO_initialize_def split_beta)

text \<open>
  Claim C1. For parents that are permutations of \<open>0..n-1\<close>, every offspring that
  \<open>bidirectionalHeuristicCrossover\<close> returns is a permutation of \<open>0..n-1\<close>, and for \<open>n > 0\<close> it
  does return one. For a tour that is a permutation of \<open>0..n-1\<close> and any \<open>PJG\<close> and \<open>q\<close> the result
  of \<open>jumpingGeneOperator\<close> is a permutation of \<open>0..n-1\<close>. Hence every tour of GA-JGHO stays a
  permutation of the city indices: the tours that \<open>initialize()\<close> builds are permutations, and
  after any number of generations that return, all tours of the population are.
\<close>

theorem permutation_invariant:
  assumes "valid_rng rs"
  shows
  "(isPermutation n (genes parent1) \<and> isPermutation n (genes parent2) \<longrightarrow>
      (\<forall>c rs'. bidirectionalHeuristicCrossover parent1 parent2 dm rs = Inr (c, rs') \<longrightarrow>
                isPermutation n (genes c)) \<and>
      (0 < n \<longrightarrow> (\<exists>c. bidirectionalHeuristicCrossover parent1 parent2 dm rs = Inr (c, drop_rng 2 rs)))) \<and>
   (isPermutation n (genes chromosome) \<longrightarrow>
      isPermutation n (genes (fst (jumpingGeneOperator chromosome PJG q rs)))) \<and>
   (\<forall>k st' rs'.
      GAJGHO_generations k (fst (GAJGHO_initialize st now rs)) (snd (GAJGHO_initialize st now rs))
        = Some (Inr (st', rs')) \<longrightarrow>
      (\<forall>c\<in>set (jg_currentPopulation st'). isPermutation (length (jg_cities st)) (genes c)))"
proof (intro conjI impI allI)
  fix c rs'
  assume p: "isPermutation n (genes parent1) \<and> isPermutation n (genes parent2)"
    and b: "bidirectionalHeuristicCrossover parent1 parent2 dm rs = Inr (c, rs')"
  from p have p1: "isPermutation n (genes parent1)" and p2: "isPermutation n (genes parent2)" by auto
  show "isPermutation n (genes c)"
    using bidirectionalHeuristicCrossover_perm[OF p1 p2 assms, of dm] b by (cases "n = 0") auto
next
  assume p: "isPermutation n (genes parent1) \<and> isPermutation n (genes parent2)" and n: "0 < n"
  from p have p1: "isPermutation n (genes parent1)" and p2: "isPermutation n (genes parent2)" by auto
  show "\<exists>c. bidirectionalHeuristicCrossover parent1 parent2 dm rs = Inr (c, drop_rng 2 rs)"
    using bidirectionalHeuristicCrossover_perm[OF p1 p2 assms, of dm] n by auto
next
  assume "isPermutation n (genes chromosome)"
  then show "isPermutation n (genes (fst (jumpingGeneOperator chromosome PJG q rs)))"
    using assms by (rule jumpingGeneOperator_perm)
next
  fix k st' rs'
  assume g: "GAJGHO_generations k (fst (GAJGHO_initialize st now rs)) (snd (GAJGHO_initialize st now rs))
        = Some (Inr (st', rs'))"
  have i: "\<forall>c\<in>set (jg_currentPopulation (fst (GAJGHO_initialize st now rs))).
      isPermutation (length (jg_cities (fst (GAJGHO_initialize st now rs)))) (genes c)"
    using GAJGHO_initialize_population[OF assms, of st now] by (simp add: GAJGHO_initialize_cities)
  show "\<forall>c\<in>set (jg_currentPopulation st'). isPermutation (length (jg_cities st)) (genes c)"
    using GAJGHO_generations_perm[OF g GAJGHO_initialize_valid[OF assms] i]
    by (simp add: GAJGHO_initialize_cities)
qed

subsection \<open>Evaluated instances\<close>

lemma sqrt9: "sqrt 9 = 3" by (rule real_sqrt_unique) simp_all
lemma sqrt16: "sqrt 16 = 4" by (rule real_sqrt_unique) simp_all
lemma sqrt25: "sqrt 25 = 5" by (rule real_sqrt_unique) simp_all

lemma upt3: "[0..<3] = [0,1,2]" "[1..<3] = [1,2]" "[2..<3] = [2]" "[3..<3] = []"
  by (simp_all add: upt_rec)

lemma buildDistanceMatrix_triangle: "buildDistanceMatrix triangle = triangleMatrix"
  by (simp add: buildDistanceMatrix_def buildRow_def triangle_def Let_def upt3 setEntry_def
      calculateDistance_def sqrt9 sqrt16 sqrt25 triangleMatrix_def)

lemma drop_rng_constDraws [simp]: "drop_rng k (constDraws r) = constDraws r"
  by (simp add: drop_rng_def constDraws_def)

lemma shuffleFrom_constDraws: "snd (shuffleFrom k g (constDraws r)) = constDraws r"
  by (induction k arbitrary: g) (simp_all add: Let_def)

lemma generateRandomChromosome_triangle:
  "generateRandomChromosome 3 (constDraws (9 / 10)) = ([0, 1, 2], constDraws (9 / 10))"
proof -
  have "fst (generateRandomChromosome 3 (constDraws (9 / 10))) = [0, 1, 2]" by code_simp
  moreover have "snd (generateRandomChromosome 3 (constDraws (9 / 10))) = constDraws (9 / 10)"
    by (simp add: generateRandomChromosome_def shuffleFrom_constDraws)
  ultimately show ?thesis by (metis prod.collapse)
qed

lemma createChromosome_triangle:
  "createChromosome [0, 1, 2] triangle = \<lparr>genes = [0, 1, 2], fitness = 12, distance = 12\<rparr>"
  by (simp add: createChromosome_def calculateTotalDistance_def triangle_def upt3 
      calculateDistance_def sqrt9 sqrt16 sqrt25 Let_def)

lemma GAJGHO_initialize_triangle:
  "GAJGHO_initialize (newGAJGHO triangle smallParams 0) 0 (constDraws (9 / 10)) =
     (triangleState, constDraws (9 / 10))"
proof -
  have l: "length triangle = 3" by (simp add: triangle_def)
  have "initializePopulation triangle (Suc (Suc 0)) (constDraws (9 / 10)) =
      ([\<lparr>genes = [0, 1, 2], fitness = 12, distance = 12\<rparr>,
        \<lparr>genes = [0, 1, 2], fitness = 12, distance = 12\<rparr>], constDraws (9 / 10))"
    by (simp only: initializePopulation.simps l generateRandomChromosome_triangle Let_def
        prod.case createChromosome_triangle)
  then show ?thesis
    by (simp add: GAJGHO_initialize_def newGAJGHO_def smallParams_def DEFAULT_PARAMS_def
        buildDistanceMatrix_triangle triangleState_def numeral_2_eq_2)
qed

lemma GAJGHO_runGeneration_triangle:
  "(case GAJGHO_runGeneration triangleState (constDraws (9 / 10)) of
      Some (Inr (st', population, rs')) \<Rightarrow>
        jg_currentPopulation st' = [\<lparr>genes = [2, 1, 0], fitness = 12, distance = 12\<rparr>,
                                    \<lparr>genes = [0, 1, 2], fitness = 12, distance = 12\<rparr>]
    | _ \<Rightarrow> False)"
  by code_simp

lemma GAJGHO_generations_triangle:
  "\<exists>st' rs'. GAJGHO_generations 1 triangleState (constDraws (9 / 10)) = Some (Inr (st', rs')) \<and>
      jg_currentPopulation st' = [\<lparr>genes = [2, 1, 0], fitness = 12, distance = 12\<rparr>,
                                  \<lparr>genes = [0, 1, 2], fitness = 12, distance = 12\<rparr>]"
  using GAJGHO_runGeneration_triangle
  by (auto simp: numeral_1_eq_Suc_0 split: option.splits sum.splits)

theorem permutation_invariant_witness:
  "valid_rng (constDraws (9 / 10)) \<and>
   isPermutation 3 (genes (identityTour 3)) \<and> isPermutation 3 (genes (reversedTour 3)) \<and>
   (\<exists>c. bidirectionalHeuristicCrossover (identityTour 3) (reversedTour 3) triangleMatrix
          (constDraws (9 / 10)) = Inr (c, drop_rng 2 (constDraws (9 / 10))) \<and>
        isPermutation 3 (genes c)) \<and>
   isPermutation 3 (genes (fst (jumpingGeneOperator (identityTour 3) 1 2 (constDraws (9 / 10))))) \<and>
   (\<exists>st' rs'.
      GAJGHO_generations 1
        (fst (GAJGHO_initialize (newGAJGHO triangle smallParams 0) 0 (constDraws (9 / 10))))
        (snd (GAJGHO_initialize (newGAJGHO triangle smallParams 0) 0 (constDraws (9 / 10))))
        = Some (Inr (st', rs')) \<and>
      jg_currentPopulation st' = [\<lparr>genes = [2, 1, 0], fitness = 12, distance = 12\<rparr>,
                                  \<lparr>genes = [0, 1, 2], fitness = 12, distance = 12\<rparr>] \<and>
      isPermutation 3 [2, 1, 0] \<and> isPermutation 3 [0, 1, 2])"
proof -
  have v: "valid_rng (constDraws (9 / 10))" by (simp add: valid_constDraws)
  have i: "isPermutation 3 (genes (identityTour 3))"
    by (simp add: isPermutation_def identityTour_def)
  have r: "isPermutation 3 (genes (reversedTour 3))"
    by (simp add: isPermutation_def reversedTour_def)
  note T = permutation_invariant[OF v, of 3 "identityTour 3" "reversedTour 3" triangleMatrix
      "identityTour 3" 1 2 "newGAJGHO triangle smallParams 0" 0]
  from T i r have b: "\<exists>c. bidirectionalHeuristicCrossover (identityTour 3) (reversedTour 3) triangleMatrix
          (constDraws (9 / 10)) = Inr (c, drop_rng 2 (constDraws (9 / 10))) \<and>
        isPermutation 3 (genes c)"
    by (metis zero_less_numeral)
  from T i have j: "isPermutation 3 (genes (fst (jumpingGeneOperator (identityTour 3) 1 2 (constDraws (9 / 10)))))"
    by blast
  obtain st' rs' where g: "GAJGHO_generations 1 triangleState (constDraws (9 / 10)) = Some (Inr (st', rs'))"
    and p: "jg_currentPopulation st' = [\<lparr>genes = [2, 1, 0], fitness = 12, distance = 12\<rparr>,
                                  \<lparr>genes = [0, 1, 2], fitness = 12, distance = 12\<rparr>]"
    using GAJGHO_generations_triangle by blast
  have l: "length (jg_cities (newGAJGHO triangle smallParams 0)) = 3"
    by (simp add: newGAJGHO_def triangle_def)
  from T g have "\<forall>c\<in>set (jg_currentPopulation st'). isPermutation 3 (genes c)"
    unfolding GAJGHO_initialize_triangle fst_conv snd_conv l by blast
  then have q: "isPermutation 3 [2, 1, 0] \<and> isPermutation 3 [0, 1, 2]" by (simp add: p)
  show ?thesis using v i r b j g p q by (simp add: GAJGHO_initialize_triangle)
qed

subsection \<open>2-opt local search\<close>

subsection \<open>Tour length under a segment reversal\<close>

lemma pathLength_append:
  "xs \<noteq> [] \<Longrightarrow> ys \<noteq> [] \<Longrightarrow>
   pathLength dm (xs @ ys) = pathLength dm xs + dm ! (last xs) ! (hd ys) + pathLength dm ys"
proof (induction dm xs rule: pathLength.induct)
  case (1 dm)
  then show ?case by simp
next
  case (2 dm a)
  then show ?case by (cases ys) simp_all
next
  case (3 dm a b rest)
  then show ?case by simp
qed

lemma pathLength_snoc:
  "xs \<noteq> [] \<Longrightarrow> pathLength dm (xs @ [a]) = pathLength dm xs + dm ! (last xs) ! a"
  using pathLength_append[of xs "[a]" dm] by simp

lemma pathLength_Cons:
  "xs \<noteq> [] \<Longrightarrow> pathLength dm (a # xs) = dm ! a ! (hd xs) + pathLength dm xs"
  by (cases xs) simp_all

lemma pathLength_rev:
  assumes "symmetric n dm"
  shows "\<forall>c\<in>set xs. c < n \<Longrightarrow> pathLength dm (rev xs) = pathLength dm xs"
proof (induction xs)
  case Nil
  then show ?case by simp
next
  case (Cons a xs)
  show ?case
  proof (cases "xs = []")
    case True
    then show ?thesis by simp
  next
    case False
    have s: "dm ! (hd xs) ! a = dm ! a ! (hd xs)"
      using assms Cons.prems False by (cases xs) (auto simp: symmetric_def)
    have "pathLength dm (rev (a # xs)) = pathLength dm (rev xs) + dm ! (last (rev xs)) ! a"
      using False by (simp add: pathLength_snoc)
    also have "last (rev xs) = hd xs" using False by (simp add: last_rev)
    also have "pathLength dm (rev xs) = pathLength dm xs" using Cons by simp
    finally show ?thesis using False s by (simp add: pathLength_Cons)
  qed
qed

lemma pathLength_sum:
  "pathLength dm xs = (\<Sum>i\<leftarrow>[0 ..< length xs - 1]. dm ! (xs ! i) ! (xs ! (i + 1)))"
proof (induction dm xs rule: pathLength.induct)
  case (1 dm)
  then show ?case by simp
next
  case (2 dm a)
  then show ?case by simp
next
  case (3 dm a b rest)
  have "[0 ..< length (a # b # rest) - 1] = 0 # map Suc [0 ..< length (b # rest) - 1]"
    by (simp add: upt_conv_Cons map_Suc_upt del: upt_Suc)
  then show ?case using 3 by (simp add: comp_def del: upt_Suc)
qed

lemma tour_as_path:
  assumes "g \<noteq> []"
  shows "calculateTotalDistanceWithMatrix g dm = pathLength dm (g @ [hd g])"
proof -
  define m where "m = length g"
  have m: "0 < m" using assms by (simp add: m_def)
  have "(g @ [hd g]) ! i = g ! i \<and> (g @ [hd g]) ! (i + 1) = g ! ((i + 1) mod m)" if "i < m" for i
  proof (cases "i + 1 < m")
    case True
    then show ?thesis using that by (simp add: nth_append m_def)
  next
    case False
    then have "i + 1 = m" using that by simp
    then show ?thesis using that assms by (simp add: nth_append m_def hd_conv_nth)
  qed
  then have E: "map (\<lambda>i. dm ! ((g @ [hd g]) ! i) ! ((g @ [hd g]) ! (i + 1))) [0 ..< m]
           = map (\<lambda>i. dm ! (g ! i) ! (g ! ((i + 1) mod m))) [0 ..< m]"
    by (intro map_cong) auto
  have "pathLength dm (g @ [hd g])
      = sum_list (map (\<lambda>i. dm ! ((g @ [hd g]) ! i) ! ((g @ [hd g]) ! (i + 1))) [0 ..< m])"
    unfolding pathLength_sum by (simp add: m_def)
  also have "\<dots> = sum_list (map (\<lambda>i. dm ! (g ! i) ! (g ! ((i + 1) mod m))) [0 ..< m])"
    by (simp only: E)
  also have "\<dots> = calculateTotalDistanceWithMatrix g dm"
    unfolding calculateTotalDistanceWithMatrix_def m_def ..
  finally show ?thesis by simp
qed

lemma reversal_effect:
  assumes sym: "symmetric N dm" and inr: "\<forall>c\<in>set g. c < N" and ij: "i < j" and jm: "j < length g"
  shows "calculateTotalDistanceWithMatrix
           (take (i + 1) g @ rev (take (j - i) (drop (i + 1) g)) @ drop (j + 1) g) dm
       = calculateTotalDistanceWithMatrix g dm
         - (dm ! (g ! i) ! (g ! (i + 1)) + dm ! (g ! j) ! (g ! ((j + 1) mod length g)))
         + (dm ! (g ! i) ! (g ! j) + dm ! (g ! (i + 1)) ! (g ! ((j + 1) mod length g)))"
proof -
  define A where "A = take (i + 1) g"
  define B where "B = take (j - i) (drop (i + 1) g)"
  define C where "C = drop (j + 1) g @ [hd g]"
  have gne: "g \<noteq> []" using jm by auto
  have Ane: "A \<noteq> []" using gne by (simp add: A_def)
  have lB: "length B = j - i" using ij jm by (simp add: B_def)
  have Bne: "B \<noteq> []" using lB ij by auto
  have Cne: "C \<noteq> []" by (simp add: C_def)
  have hdA: "hd A = hd g" using gne by (simp add: A_def)
  have lastA: "last A = g ! i"
    using ij jm by (simp add: A_def take_Suc_conv_app_nth)
  have hdB: "hd B = g ! (i + 1)"
    using ij jm Bne by (simp add: B_def hd_conv_nth)
  have lastB: "last B = g ! j"
    using ij jm Bne lB by (simp add: last_conv_nth) (simp add: B_def)
  have hdC: "hd C = g ! ((j + 1) mod length g)"
  proof (cases "j + 1 < length g")
    case True
    then show ?thesis by (simp add: C_def hd_append hd_drop_conv_nth)
  next
    case False
    then have "j + 1 = length g" using jm by simp
    then show ?thesis using gne by (simp add: C_def hd_conv_nth)
  qed
  have d: "drop (j + 1) g = drop (j - i) (drop (i + 1) g)" using ij by simp
  have split: "g = A @ B @ drop (j + 1) g"
    unfolding A_def B_def d by (simp only: append_take_drop_id)
  have g1: "g @ [hd g] = A @ B @ C" using split by (simp add: C_def)
  let ?g' = "A @ rev B @ drop (j + 1) g"
  have hd': "hd ?g' = hd g" using Ane hdA by simp
  have g2: "?g' @ [hd ?g'] = A @ rev B @ C" unfolding hd' by (simp add: C_def)
  have Bin: "\<forall>c\<in>set B. c < N" using inr by (auto simp: B_def dest!: in_set_takeD in_set_dropD)
  have revB: "pathLength dm (rev B) = pathLength dm B" by (rule pathLength_rev[OF sym Bin])
  have t: "calculateTotalDistanceWithMatrix g dm
      = pathLength dm A + dm ! (g ! i) ! (g ! (i + 1)) + pathLength dm B
        + dm ! (g ! j) ! (g ! ((j + 1) mod length g)) + pathLength dm C"
    unfolding tour_as_path[OF gne] g1
    using Ane Bne Cne by (simp add: pathLength_append lastA hdB lastB hdC)
  have g'ne: "?g' \<noteq> []" using Ane by simp
  have t': "calculateTotalDistanceWithMatrix ?g' dm
      = pathLength dm A + dm ! (g ! i) ! (g ! j) + pathLength dm B
        + dm ! (g ! (i + 1)) ! (g ! ((j + 1) mod length g)) + pathLength dm C"
    unfolding tour_as_path[OF g'ne] g2
    using Ane Bne Cne by (simp add: pathLength_append lastA hdB lastB hdC hd_rev last_rev revB)
  show ?thesis unfolding A_def[symmetric] B_def[symmetric] t t' by simp
qed

subsection \<open>One pass of 2-opt\<close>

lemma twoOptPass_scan:
  "twoOptPass dm n st = fold (\<lambda>(i, j) st. twoOptStep dm n i j st) (scanPairs n) st"
proof -
  have inner: "fold (\<lambda>(i, j) st. twoOptStep dm n i j st) (map (\<lambda>j. (i, j)) js) st
             = fold (\<lambda>j st. twoOptStep dm n i j st) js st" for i js st
    by (induction js arbitrary: st) simp_all
  have outer: "fold (\<lambda>(i, j) st. twoOptStep dm n i j st)
                 (concat (map (\<lambda>i. map (\<lambda>j. (i, j)) [i + 1 ..< n]) is)) st
             = fold (\<lambda>i st. fold (\<lambda>j st. twoOptStep dm n i j st) [i + 1 ..< n] st) is st" for "is" st
    by (induction "is" arbitrary: st) (simp_all add: inner)
  show ?thesis unfolding twoOptPass_def scanPairs_def by (simp only: outer)
qed

lemma set_scanPairs: "set (scanPairs n) = {(i, j). i < j \<and> j < n}"
proof -
  have "(a, b) \<in> set (scanPairs n) \<longleftrightarrow> a < b \<and> b < n" for a b
  proof
    assume "(a, b) \<in> set (scanPairs n)"
    then show "a < b \<and> b < n" unfolding scanPairs_def by auto
  next
    assume h: "a < b \<and> b < n"
    have "a < n - 1" using h by arith
    then have 1: "a \<in> set [0 ..< n - 1]" by simp
    have "a + 1 \<le> b \<and> b < n" using h by arith
    then have "b \<in> set [a + 1 ..< n]" by simp
    then have 2: "(a, b) \<in> set (map (\<lambda>j. (a, j)) [a + 1 ..< n])" by (simp only: set_map image_iff) blast
    have "\<exists>i\<in>set [0 ..< n - 1]. (a, b) \<in> set (map (\<lambda>j. (i, j)) [i + 1 ..< n])"
      using 1 2 by blast
    then show "(a, b) \<in> set (scanPairs n)"
      unfolding scanPairs_def set_concat by (metis (no_types, lifting) UN_iff image_eqI list.set_map)
  qed
  then show ?thesis by auto
qed

lemma twoOptStep_cases:
  assumes "symmetric N dm" "\<forall>c\<in>set g. c < N" "i < j" "j < length g"
  shows "(improving dm g i j \<longrightarrow>
            snd (twoOptStep dm (length g) i j (g, b)) \<and>
            mset (fst (twoOptStep dm (length g) i j (g, b))) = mset g \<and>
            calculateTotalDistanceWithMatrix (fst (twoOptStep dm (length g) i j (g, b))) dm
              < calculateTotalDistanceWithMatrix g dm) \<and>
         (\<not> improving dm g i j \<longrightarrow> twoOptStep dm (length g) i j (g, b) = (g, b))"
proof (cases "improving dm g i j")
  case True
  then have e: "twoOptStep dm (length g) i j (g, b) =
      (take (i + 1) g @ rev (take (j - i) (drop (i + 1) g)) @ drop (j + 1) g, True)"
    unfolding twoOptStep_def improving_def Let_def fst_conv by (rule if_P)
  have "calculateTotalDistanceWithMatrix (fst (twoOptStep dm (length g) i j (g, b))) dm
        < calculateTotalDistanceWithMatrix g dm"
    unfolding e fst_conv reversal_effect[OF assms] using True unfolding improving_def by linarith
  moreover have "mset (fst (twoOptStep dm (length g) i j (g, b))) = mset g"
    using twoOptStep_mset[OF assms(3), of dm "length g" "(g, b)"] by simp
  ultimately show ?thesis using True e by simp
next
  case False
  then have "twoOptStep dm (length g) i j (g, b) = (g, b)"
    unfolding twoOptStep_def improving_def Let_def fst_conv by (rule if_not_P)
  then show ?thesis using False by simp
qed

lemma scan_fold:
  assumes sym: "symmetric N dm"
  shows "\<forall>c\<in>set g. c < N \<Longrightarrow> \<forall>(i, j)\<in>set ps. i < j \<and> j < length g \<Longrightarrow>
     (let r = fold (\<lambda>(i, j) st. twoOptStep dm (length g) i j st) ps (g, b)
      in mset (fst r) = mset g \<and>
         (b \<longrightarrow> snd r) \<and>
         (snd r \<and> \<not> b \<longrightarrow>
            calculateTotalDistanceWithMatrix (fst r) dm < calculateTotalDistanceWithMatrix g dm) \<and>
         calculateTotalDistanceWithMatrix (fst r) dm \<le> calculateTotalDistanceWithMatrix g dm \<and>
         (\<not> snd r \<longrightarrow> fst r = g \<and> (\<forall>(i, j)\<in>set ps. \<not> improving dm g i j)))"
proof (induction ps arbitrary: g b)
  case Nil
  then show ?case by simp
next
  case (Cons p ps)
  obtain i j where p: "p = (i, j)" by (cases p)
  have ij: "i < j" "j < length g" using Cons.prems(2) p by auto
  note S = twoOptStep_cases[OF sym Cons.prems(1) ij, of b]
  show ?case
  proof (cases "improving dm g i j")
    case True
    define g1 where "g1 = fst (twoOptStep dm (length g) i j (g, b))"
    have e: "twoOptStep dm (length g) i j (g, b) = (g1, True)"
      using S True by (simp add: g1_def prod_eq_iff)
    have m1: "mset g1 = mset g" and l1: "calculateTotalDistanceWithMatrix g1 dm
        < calculateTotalDistanceWithMatrix g dm"
      using S True by (simp_all add: g1_def)
    have len: "length g1 = length g" using m1 by (rule mset_eq_length)
    have in1: "\<forall>c\<in>set g1. c < N" using Cons.prems(1) mset_eq_setD[OF m1] by simp
    have ps1: "\<forall>(i, j)\<in>set ps. i < j \<and> j < length g1" using Cons.prems(2) len by simp
    note IH = Cons.IH[OF in1 ps1, of True, unfolded len Let_def]
    have f: "fold (\<lambda>(i, j) st. twoOptStep dm (length g) i j st) (p # ps) (g, b)
        = fold (\<lambda>(i, j) st. twoOptStep dm (length g) i j st) ps (g1, True)"
      by (simp add: p e)
    show ?thesis unfolding Let_def f using IH m1 l1 by auto
  next
    case False
    have e: "twoOptStep dm (length g) i j (g, b) = (g, b)" using S False by simp
    have ps1: "\<forall>(i, j)\<in>set ps. i < j \<and> j < length g" using Cons.prems(2) by simp
    note IH = Cons.IH[OF Cons.prems(1) ps1, of b, unfolded Let_def]
    have f: "fold (\<lambda>(i, j) st. twoOptStep dm (length g) i j st) (p # ps) (g, b)
        = fold (\<lambda>(i, j) st. twoOptStep dm (length g) i j st) ps (g, b)"
      by (simp add: p e)
    show ?thesis unfolding Let_def f using IH False p by auto
  qed
qed

lemma twoOptPass_spec:
  assumes "symmetric N dm" "\<forall>c\<in>set g. c < N"
  shows "mset (fst (twoOptPass dm (length g) (g, False))) = mset g \<and>
         (snd (twoOptPass dm (length g) (g, False)) \<longrightarrow>
            calculateTotalDistanceWithMatrix (fst (twoOptPass dm (length g) (g, False))) dm
              < calculateTotalDistanceWithMatrix g dm) \<and>
         (\<not> snd (twoOptPass dm (length g) (g, False)) \<longrightarrow>
            fst (twoOptPass dm (length g) (g, False)) = g \<and> twoOptOptimal dm g)"
proof -
  have ps: "\<forall>(i, j)\<in>set (scanPairs (length g)). i < j \<and> j < length g"
    by (simp add: set_scanPairs)
  note F = scan_fold[OF assms ps, of False, folded twoOptPass_scan, unfolded Let_def]
  have "twoOptOptimal dm g" if "\<forall>(i, j)\<in>set (scanPairs (length g)). \<not> improving dm g i j"
    using that unfolding twoOptOptimal_def improving_def set_scanPairs by auto
  then show ?thesis using F by auto
qed

subsection \<open>Termination of 2-opt on a symmetric matrix\<close>

lemma wf_shorterTour: "wf (shorterTour dm)"
proof (rule wfI_min)
  fix x :: "nat list" and Q
  assume x: "x \<in> Q"
  define S where "S = Q \<inter> {g. mset g = mset x}"
  have fin: "finite S" unfolding S_def using mset_eq_finite[of x] by simp
  have ne: "S \<noteq> {}" using x by (auto simp: S_def)
  obtain z where z: "z \<in> S"
    and zmin: "\<And>y. y \<in> S \<Longrightarrow> calculateTotalDistanceWithMatrix z dm \<le> calculateTotalDistanceWithMatrix y dm"
    using ex_is_arg_min_if_finite[OF fin ne, of "\<lambda>g. calculateTotalDistanceWithMatrix g dm"]
    unfolding is_arg_min_def by (meson not_le)
  have "y \<notin> Q" if "(y, z) \<in> shorterTour dm" for y
  proof
    assume "y \<in> Q"
    then have "y \<in> S" using that z by (simp add: S_def shorterTour_def)
    from zmin[OF this] that show False by (simp add: shorterTour_def)
  qed
  then show "\<exists>z\<in>Q. \<forall>y. (y, z) \<in> shorterTour dm \<longrightarrow> y \<notin> Q"
    using z by (auto simp: S_def)
qed

lemma twoOptLoop_terminates:
  assumes sym: "symmetric N dm"
  shows "\<forall>c\<in>set g. c < N \<Longrightarrow>
     \<exists>g'. twoOptLoop dm (length g) g = Some g' \<and> mset g' = mset g \<and> twoOptOptimal dm g'"
proof (induction g rule: wf_induct_rule[OF wf_shorterTour[of dm]])
  case (1 g)
  note P = twoOptPass_spec[OF sym "1.prems"]
  define g1 where "g1 = fst (twoOptPass dm (length g) (g, False))"
  show ?case
  proof (cases "snd (twoOptPass dm (length g) (g, False))")
    case True
    have m1: "mset g1 = mset g" using P by (simp add: g1_def)
    have "(g1, g) \<in> shorterTour dm" using P True m1 by (simp add: shorterTour_def g1_def)
    moreover have "\<forall>c\<in>set g1. c < N" using "1.prems" mset_eq_setD[OF m1] by simp
    ultimately obtain g' where g': "twoOptLoop dm (length g1) g1 = Some g'" "mset g' = mset g1"
        "twoOptOptimal dm g'"
      using "1.IH" by blast
    have len: "length g1 = length g" using m1 by (rule mset_eq_length)
    have "twoOptLoop dm (length g) g = twoOptLoop dm (length g) g1"
      using True by (subst twoOptLoop.simps) (simp add: Let_def g1_def)
    then show ?thesis using g' m1 len by auto
  next
    case False
    have "twoOptLoop dm (length g) g = Some g1"
      using False by (subst twoOptLoop.simps) (simp add: Let_def g1_def)
    moreover have "g1 = g" "twoOptOptimal dm g" using P False by (simp_all add: g1_def)
    ultimately show ?thesis by simp
  qed
qed

text \<open>
  Claim C3. For every tour over a distance matrix (square and symmetric, with the cities
  of the tour among its indices) \<open>twoOptOperator\<close> terminates; the tour it returns is a
  rearrangement of the same cities in which no pair of edges \<open>(i, i + 1)\<close> and
  \<open>(j, (j + 1) mod n)\<close> can be replaced by \<open>(i, j)\<close> and \<open>(i + 1, (j + 1) mod n)\<close> with a strictly
  smaller sum, and its \<open>distance\<close> (and \<open>fitness\<close>) is the cyclic length of the returned tour
  under the matrix.
\<close>

theorem twoOptOperator_spec:
  assumes "square N dm" "symmetric N dm" "\<forall>c\<in>set (genes chromosome). c < N"
  shows "\<exists>c'. twoOptOperator chromosome dm = Some c' \<and>
              mset (genes c') = mset (genes chromosome) \<and>
              twoOptOptimal dm (genes c') \<and>
              distance c' = calculateTotalDistanceWithMatrix (genes c') dm \<and>
              fitness c' = distance c'"
proof -
  obtain g' where g': "twoOptLoop dm (length (genes chromosome)) (genes chromosome) = Some g'"
      "mset g' = mset (genes chromosome)" "twoOptOptimal dm g'"
    using twoOptLoop_terminates[OF assms(2,3)] by blast
  have len: "length g' = length (genes chromosome)" using g'(2) by (rule mset_eq_length)
  have "twoOptOperator chromosome dm =
      Some \<lparr>genes = g', fitness = calculateTotalDistanceWithMatrix g' dm,
            distance = calculateTotalDistanceWithMatrix g' dm\<rparr>"
    unfolding twoOptOperator_def Let_def g' option.case calculateTotalDistanceWithMatrix_def len ..
  then show ?thesis using g' by simp
qed

lemma lineMatrix_wf: "square 4 lineMatrix \<and> symmetric 4 lineMatrix"
  by (simp add: square_def symmetric_def lineMatrix_def eval_nat_numeral All_less_Suc)

theorem twoOptOperator_spec_witness:
  "square 4 lineMatrix \<and> symmetric 4 lineMatrix \<and>
   (\<exists>c'. twoOptOperator \<lparr>genes = [0, 2, 1, 3], fitness = 8, distance = 8\<rparr> lineMatrix = Some c' \<and>
         genes c' = [0, 1, 2, 3] \<and> distance c' = 6 \<and> fitness c' = distance c' \<and>
         distance c' = calculateTotalDistanceWithMatrix (genes c') lineMatrix)"
proof -
  have e: "twoOptOperator \<lparr>genes = [0, 2, 1, 3], fitness = 8, distance = 8\<rparr> lineMatrix
         = Some \<lparr>genes = [0, 1, 2, 3], fitness = 6, distance = 6\<rparr>"
    by code_simp
  have r: "\<forall>c\<in>set (genes \<lparr>genes = [0, 2, 1, 3], fitness = 8, distance = 8\<rparr>). c < 4" by simp
  from twoOptOperator_spec[OF lineMatrix_wf[THEN conjunct1] lineMatrix_wf[THEN conjunct2] r]
  show ?thesis using lineMatrix_wf unfolding e by auto
qed

subsection \<open>Elitism\<close>

lemma sortByDistance_hd:
  assumes "cs \<noteq> []"
  shows "hd (sortByDistance cs) \<in> set cs \<and> distance (hd (sortByDistance cs)) = bestLength cs"
proof -
  let ?s = "sortByDistance cs"
  have ne: "?s \<noteq> []" using assms by simp
  have srt: "sorted (map distance ?s)" by (simp add: sortByDistance_def)
  have hdin: "hd ?s \<in> set cs" using ne by (metis hd_in_set sortByDistance_set)
  have "distance (hd ?s) \<le> d" if "d \<in> set (map distance cs)" for d
  proof -
    from that obtain c where c: "c \<in> set ?s" "d = distance c" by auto
    then obtain i where i: "i < length ?s" "?s ! i = c" unfolding in_set_conv_nth by blast
    have "map distance ?s ! 0 \<le> map distance ?s ! i"
      using srt i(1) by (intro sorted_nth_mono) auto
    then show ?thesis using i c ne by (simp add: hd_conv_nth)
  qed
  moreover have "distance (hd ?s) \<in> set (map distance cs)" using hdin by simp
  ultimately have "Min (set (map distance cs)) = distance (hd ?s)"
    by (intro Min_eqI) auto
  then show ?thesis using hdin by (simp add: bestLength_def)
qed

lemma bestLength_le: "c \<in> set cs \<Longrightarrow> bestLength cs \<le> distance c"
  unfolding bestLength_def by (intro Min_le) auto

lemma hd_in_slice:
  assumes "xs \<noteq> []" "1 \<le> E"
  shows "hd xs \<in> set (slice xs 0 (int E))"
proof -
  have "slice xs 0 (int E) = take (min E (length xs)) xs"
    by (simp add: slice_def relIndex_def Let_def min_def)
  moreover have "0 < min E (length xs)" using assms by simp
  ultimately show ?thesis using assms(1)
    by (cases xs; cases "min E (length xs)") auto
qed

lemma elitism_best:
  assumes "previous \<noteq> []" "1 \<le> E"
  shows "elitism previous offspring P E \<noteq> [] \<and>
         bestLength (elitism previous offspring P E) \<le> bestLength previous"
proof -
  note H = sortByDistance_hd[OF assms(1)]
  have ne: "sortByDistance previous \<noteq> []" using assms(1) by simp
  have "hd (sortByDistance previous) \<in> set (elitism previous offspring P E)"
    using hd_in_slice[OF ne assms(2)] by (simp add: elitism_def Let_def)
  then show ?thesis using bestLength_le[of "hd (sortByDistance previous)"] H by auto
qed

lemma StandardGA_updateStats_population:
  "StandardGA_updateStats st elapsed = Inr st' \<Longrightarrow>
   sga_population st' = sortByDistance (sga_population st) \<and>
   sga_currentGeneration st' = sga_currentGeneration st \<and> sga_params st' = sga_params st"
  by (auto simp: StandardGA_updateStats_def Let_def split: sum.splits)

lemma StandardGA_runGeneration_cases:
  assumes "StandardGA_runGeneration st elapsed rs = Some (Inr (st', pop, rs'))"
  obtains offspring mutated where
    "sga_population st' =
       sortByDistance (sortByDistance
         (take (eliteCount (sga_params st))
            (take (eliteCount (sga_params st)) (sortByDistance (sga_population st)) @ offspring)
          @ mutated))"
    "sga_currentGeneration st' = sga_currentGeneration st + 1"
    "chromosomes pop = sga_population st'"
proof -
  define ps where "ps = sga_params st"
  define st1 where "st1 = st\<lparr>sga_population := sortByDistance (sga_population st)\<rparr>"
  define elites where "elites = take (eliteCount ps) (sga_population st1)"
  obtain selected rs1 where sel: "StandardGA_selection st1 rs = (selected, rs1)" by fastforce
  note R = assms[unfolded StandardGA_runGeneration_def Let_def, folded ps_def, folded st1_def,
      folded elites_def, unfolded sel prod.case]
  from R obtain offspring rs2 where
    br: "breed (sga_distanceMatrix st) selected (populationSize ps - length elites) rs1
           = Some (Inr (offspring, rs2))"
    by (cases "breed (sga_distanceMatrix st) selected (populationSize ps - length elites) rs1")
       (auto split: sum.splits)
  note R1 = R[unfolded br option.case sum.case prod.case]
  from R1 obtain mutated rs3 where
    mu: "mutateAll (sga_distanceMatrix st) (drop (eliteCount ps) (elites @ offspring)) rs2
           = Inr (mutated, rs3)"
    by (cases "mutateAll (sga_distanceMatrix st) (drop (eliteCount ps) (elites @ offspring)) rs2")
       auto
  define st2 where "st2 = st1\<lparr>sga_population := take (eliteCount ps) (elites @ offspring) @ mutated,
                             sga_currentGeneration := sga_currentGeneration st + 1\<rparr>"
  note R2 = R1[unfolded mu sum.case prod.case, folded st2_def]
  from R2 obtain st3 where us: "StandardGA_updateStats st2 elapsed = Inr st3"
    by (cases "StandardGA_updateStats st2 elapsed") auto
  note R3 = R2[unfolded us sum.case]
  note U = StandardGA_updateStats_population[OF us]
  from R3 have e: "st' = st3\<lparr>sga_population := sortByDistance (sga_population st3)\<rparr>"
     and p: "chromosomes pop = sortByDistance (sga_population st3)"
    by (auto simp: StandardGA_getPopulation_def Let_def)
  have "sga_population st' = sortByDistance (sortByDistance
         (take (eliteCount ps) (elites @ offspring) @ mutated))"
    using e U by (simp add: st2_def)
  moreover have "sga_currentGeneration st' = sga_currentGeneration st + 1"
    using e U by (simp add: st2_def)
  moreover have "chromosomes pop = sga_population st'" using e p by simp
  ultimately show ?thesis
    using that[of offspring mutated] by (simp add: elites_def st1_def ps_def)
qed

lemma StandardGA_runGeneration_best:
  assumes run: "StandardGA_runGeneration st elapsed rs = Some (Inr (st', pop, rs'))"
    and E: "1 \<le> eliteCount (sga_params st)" and ne: "sga_population st \<noteq> []"
  shows "sga_population st' \<noteq> [] \<and> bestLength (sga_population st') \<le> bestLength (sga_population st)"
proof -
  from run obtain offspring mutated where
    p: "sga_population st' =
       sortByDistance (sortByDistance
         (take (eliteCount (sga_params st))
            (take (eliteCount (sga_params st)) (sortByDistance (sga_population st)) @ offspring)
          @ mutated))"
    by (rule StandardGA_runGeneration_cases)
  let ?s = "sortByDistance (sga_population st)"
  have sne: "?s \<noteq> []" using ne by simp
  obtain E' where E': "eliteCount (sga_params st) = Suc E'" using E by (cases "eliteCount (sga_params st)") auto
  have h: "hd ?s \<in> set (take (Suc E') ?s)"
    using sne by (cases ?s) auto
  have "hd ?s \<in> set (sga_population st')" unfolding p E' using h by simp
  then show ?thesis using bestLength_le[of "hd ?s" "sga_population st'"] sortByDistance_hd[OF ne]
    by auto
qed

lemma GAJGHO_runGeneration_best:
  assumes run: "GAJGHO_runGeneration st rs = Some (Inr (st', pop, rs'))"
    and E: "1 \<le> eliteCount (jg_params st)" and ne: "jg_currentPopulation st \<noteq> []"
  shows "jg_currentPopulation st' \<noteq> [] \<and>
         bestLength (jg_currentPopulation st') \<le> bestLength (jg_currentPopulation st)"
proof -
  from run obtain o7 where
    "st' = st\<lparr>jg_currentPopulation :=
               elitism (jg_currentPopulation st) o7 (populationSize (jg_params st)) (eliteCount (jg_params st)),
             jg_generation := jg_generation st + 1\<rparr>"
    by (rule GAJGHO_runGeneration_cases)
  then show ?thesis using elitism_best[OF ne E] by simp
qed

lemma GAJGHO_getPopulation_best:
  "jg_currentPopulation st \<noteq> [] \<Longrightarrow>
   \<exists>b. best (GAJGHO_getPopulation st) = Some b \<and> distance b = bestLength (jg_currentPopulation st)"
  using sortByDistance_hd[of "jg_currentPopulation st"]
  by (simp add: GAJGHO_getPopulation_def Let_def nth_opt_def hd_conv_nth)

text \<open>
  Claim C2. For GA-JGHO and for the standard genetic algorithm with \<open>eliteCount \<ge> 1\<close>: when
  \<open>runGeneration()\<close> returns from a state with a non-empty population, the minimum tour
  length in the new population is at most the minimum tour length in the population
  before the call, the best tours of the previous generation being carried over; for
  GA-JGHO the \<open>best\<close> of the returned snapshot has that minimum length.
\<close>

theorem elitism_monotone:
  "(1 \<le> eliteCount (jg_params st) \<and> jg_currentPopulation st \<noteq> [] \<and>
    GAJGHO_runGeneration st rs = Some (Inr (st', pop, rs')) \<longrightarrow>
      jg_currentPopulation st' \<noteq> [] \<and>
      bestLength (jg_currentPopulation st') \<le> bestLength (jg_currentPopulation st) \<and>
      (\<exists>b. best pop = Some b \<and> distance b = bestLength (jg_currentPopulation st'))) \<and>
   (1 \<le> eliteCount (sga_params sst) \<and> sga_population sst \<noteq> [] \<and>
    StandardGA_runGeneration sst elapsed srs = Some (Inr (sst', spop, srs')) \<longrightarrow>
      sga_population sst' \<noteq> [] \<and>
      bestLength (sga_population sst') \<le> bestLength (sga_population sst))"
proof (intro conjI impI)
  assume h: "1 \<le> eliteCount (jg_params st) \<and> jg_currentPopulation st \<noteq> [] \<and>
    GAJGHO_runGeneration st rs = Some (Inr (st', pop, rs'))"
  then have run: "GAJGHO_runGeneration st rs = Some (Inr (st', pop, rs'))" by simp
  note B = GAJGHO_runGeneration_best[OF run] 
  from B h show "jg_currentPopulation st' \<noteq> []" by simp
  from B h show "bestLength (jg_currentPopulation st') \<le> bestLength (jg_currentPopulation st)" by simp
  have "pop = GAJGHO_getPopulation st'" using run by (rule GAJGHO_runGeneration_cases)
  then show "\<exists>b. best pop = Some b \<and> distance b = bestLength (jg_currentPopulation st')"
    using GAJGHO_getPopulation_best[of st'] B h by simp
next
  assume h: "1 \<le> eliteCount (sga_params sst) \<and> sga_population sst \<noteq> [] \<and>
    StandardGA_runGeneration sst elapsed srs = Some (Inr (sst', spop, srs'))"
  then have run: "StandardGA_runGeneration sst elapsed srs = Some (Inr (sst', spop, srs'))" by simp
  note B = StandardGA_runGeneration_best[OF run]
  from B h show "sga_population sst' \<noteq> []" by simp
  from B h show "bestLength (sga_population sst') \<le> bestLength (sga_population sst)" by simp
qed

lemma StandardGA_runGeneration_line:
  "(case StandardGA_runGeneration lineGA 0 (constDraws (1 / 10)) of
      Some (Inr (st', population, rs')) \<Rightarrow>
        sga_population st' = [\<lparr>genes = [0, 1, 2, 3], fitness = 6, distance = 6\<rparr>,
                              \<lparr>genes = [0, 1, 2, 3], fitness = 6, distance = 6\<rparr>] \<and>
        sga_currentGeneration st' = 1
    | _ \<Rightarrow> False)"
  by code_simp

theorem elitism_monotone_witness:
  "1 \<le> eliteCount (jg_params triangleState) \<and> jg_currentPopulation triangleState \<noteq> [] \<and>
   (\<exists>st' pop rs'. GAJGHO_runGeneration triangleState (constDraws (9 / 10)) = Some (Inr (st', pop, rs')) \<and>
      bestLength (jg_currentPopulation st') \<le> bestLength (jg_currentPopulation triangleState)) \<and>
   1 \<le> eliteCount (sga_params lineGA) \<and> sga_population lineGA \<noteq> [] \<and>
   (\<exists>st' pop rs'. StandardGA_runGeneration lineGA 0 (constDraws (1 / 10)) = Some (Inr (st', pop, rs')) \<and>
      bestLength (sga_population st') \<le> bestLength (sga_population lineGA) \<and>
      bestLength (sga_population st') = 6)"
proof -
  have a: "1 \<le> eliteCount (jg_params triangleState)" "jg_currentPopulation triangleState \<noteq> []"
    by (simp_all add: triangleState_def smallParams_def DEFAULT_PARAMS_def)
  have b: "1 \<le> eliteCount (sga_params lineGA)" "sga_population lineGA \<noteq> []"
    by (simp_all add: lineGA_def smallParams_def DEFAULT_PARAMS_def)
  obtain st1 pop1 rs1 where
    g: "GAJGHO_runGeneration triangleState (constDraws (9 / 10)) = Some (Inr (st1, pop1, rs1))"
    using GAJGHO_runGeneration_triangle by (auto split: option.splits sum.splits)
  obtain st2 pop2 rs2 where
    s: "StandardGA_runGeneration lineGA 0 (constDraws (1 / 10)) = Some (Inr (st2, pop2, rs2))"
    and p: "sga_population st2 = [\<lparr>genes = [0, 1, 2, 3], fitness = 6, distance = 6\<rparr>,
                                   \<lparr>genes = [0, 1, 2, 3], fitness = 6, distance = 6\<rparr>]"
    using StandardGA_runGeneration_line by (auto split: option.splits sum.splits)
  have six: "bestLength (sga_population st2) = 6" by (simp add: p bestLength_def)
  from elitism_monotone[of triangleState "constDraws (9 / 10)" st1 pop1 rs1
      lineGA 0 "constDraws (1 / 10)" st2 pop2 rs2] a b g s
  have "bestLength (jg_currentPopulation st1) \<le> bestLength (jg_currentPopulation triangleState)"
    and "bestLength (sga_population st2) \<le> bestLength (sga_population lineGA)"
    by simp_all
  then show ?thesis using a b g s six by auto
qed

subsection \<open>The generation counter under \<open>initialize()\<close>\<close>

lemma GAJGHO_initialize_generation: "jg_generation (fst (GAJGHO_initialize st now rs)) = 0"
  by (simp add: GAJGHO_initialize_def split_beta)

lemma arrayFrom_length: "length (fst (arrayFrom k create rs)) = k"
  by (induction k arbitrary: rs) (simp_all add: split_beta)

lemma createRandomChromosome_snd:
  "snd (createRandomChromosome n dm rs) = drop_rng (n - 1) rs"
  by (simp add: createRandomChromosome_def split_beta Let_def generateRandomChromosome_snd)

lemma arrayFrom_snd:
  "snd (arrayFrom k (createRandomChromosome n dm) rs) = drop_rng (k * (n - 1)) rs"
  by (induction k arbitrary: rs)
    (simp_all add: split_beta createRandomChromosome_snd drop_rng_0 drop_rng_drop_rng add.commute)

lemma StandardGA_initialize_spec:
  "StandardGA_initialize st rs = Inr (st', rs') \<Longrightarrow>
   sga_currentGeneration st' = sga_currentGeneration st \<and>
   sga_params st' = sga_params st \<and>
   length (sga_population st') = populationSize (sga_params st) \<and>
   rs' = drop_rng (populationSize (sga_params st) * (length (sga_cities st) - 1)) rs"
  by (auto simp: StandardGA_initialize_def StandardGA_updateStats_def Let_def split_beta
      arrayFrom_length arrayFrom_snd split: sum.splits)

lemma statsOf_returns: "srt \<noteq> [] \<Longrightarrow> \<exists>stats. statsOf srt gen elapsed = Inr stats"
  by (simp add: statsOf_def)

lemma StandardGA_initialize_returns:
  assumes "0 < populationSize (sga_params st)"
  shows "\<exists>st' rs'. StandardGA_initialize st rs = Inr (st', rs')"
proof -
  let ?a = "arrayFrom (populationSize (sga_params st))
              (createRandomChromosome (length (sga_cities st)) (sga_distanceMatrix st)) rs"
  have "length (sortByDistance (fst ?a)) \<noteq> 0" using assms by (simp add: arrayFrom_length)
  then have "sortByDistance (fst ?a) \<noteq> []" by (simp del: sortByDistance_length)
  then obtain stats where "statsOf (sortByDistance (fst ?a)) (sga_currentGeneration st) 0 = Inr stats"
    using statsOf_returns by blast
  then show ?thesis
    by (simp add: StandardGA_initialize_def StandardGA_updateStats_def Let_def split_beta)
qed

lemma ABCTSP_initialize_spec:
  "ABCTSP_initialize st rs = Inr (st', rs') \<Longrightarrow>
   abc_currentGeneration st' = abc_currentGeneration st \<and>
   abc_params st' = abc_params st \<and>
   length (abc_foodSources st') = populationSize (abc_params st) div 2 \<and>
   length (abc_trials st') = populationSize (abc_params st) div 2 \<and>
   rs' = drop_rng (populationSize (abc_params st) div 2 * (length (abc_cities st) - 1)) rs"
  by (auto simp: ABCTSP_initialize_def ABCTSP_seed_def ABCTSP_updateStats_def Let_def split_beta
      arrayFrom_length arrayFrom_snd split: sum.splits)

lemma ABCTSP_initialize_nonempty:
  "ABCTSP_initialize st rs = Inr (st', rs') \<Longrightarrow> abc_foodSources st' \<noteq> []"
  by (auto simp: ABCTSP_initialize_def ABCTSP_seed_def ABCTSP_updateStats_def statsOf_def
      Let_def split_beta split: sum.splits if_splits)

lemma ABCTSP_initialize_returns:
  assumes "2 \<le> populationSize (abc_params st)"
  shows "\<exists>st' rs'. ABCTSP_initialize st rs = Inr (st', rs')"
proof -
  let ?a = "arrayFrom (populationSize (abc_params st) div 2)
              (createRandomChromosome (length (abc_cities st)) (abc_distanceMatrix st)) rs"
  have "length (sortByDistance (fst ?a)) \<noteq> 0" using assms by (simp add: arrayFrom_length)
  then have "sortByDistance (fst ?a) \<noteq> []" by (simp del: sortByDistance_length)
  then obtain stats where "statsOf (sortByDistance (fst ?a)) (abc_currentGeneration st) 0 = Inr stats"
    using statsOf_returns by blast
  then show ?thesis
    by (simp add: ABCTSP_initialize_def ABCTSP_seed_def ABCTSP_updateStats_def Let_def split_beta)
qed

lemma upt4: "[0..<4] = [0,1,2,3]" "[1..<4] = [1,2,3]" "[2..<4] = [2,3]" "[3..<4] = [3]" "[4..<4] = []"
  by (simp_all add: upt_rec)

lemma buildDistanceMatrix_line: "buildDistanceMatrix linePoints = lineMatrix"
  by (simp add: buildDistanceMatrix_def buildRow_def linePoints_def Let_def upt4 setEntry_def
      calculateDistance_def sqrt9 lineMatrix_def)

lemma newStandardGA_line:
  "newStandardGA linePoints smallParams =
     \<lparr>sga_cities = linePoints, sga_params = smallParams, sga_distanceMatrix = lineMatrix,
      sga_population = [], sga_currentGeneration = 0, sga_stats = []\<rparr>"
  by (simp add: newStandardGA_def buildDistanceMatrix_line)

lemma newABCTSP_line:
  "newABCTSP linePoints colonyParams =
     \<lparr>abc_cities = linePoints, abc_params = colonyParams, abc_distanceMatrix = lineMatrix,
      abc_foodSources = [], abc_trials = [], abc_currentGeneration = 0,
      abc_limit = 8, abc_stats = []\<rparr>"
proof -
  have "populationSize colonyParams * length linePoints div 2 = 8"
    by (simp add: colonyParams_def DEFAULT_PARAMS_def linePoints_def)
  then show ?thesis by (simp only: newABCTSP_def buildDistanceMatrix_line)
qed

lemma StandardGA_initialize_line:
  "StandardGA_initialize (newStandardGA linePoints smallParams) (constDraws (1 / 10))
     = Inr (lineGA1, constDraws (1 / 10))"
proof -
  have "(case StandardGA_initialize
           \<lparr>sga_cities = linePoints, sga_params = smallParams, sga_distanceMatrix = lineMatrix,
            sga_population = [], sga_currentGeneration = 0, sga_stats = []\<rparr>
           (constDraws (1 / 10)) of
          Inr (st1, rs1) \<Rightarrow> st1 = lineGA1
        | _ \<Rightarrow> False)"
    by code_simp
  then obtain st1 rs1 where
    e: "StandardGA_initialize (newStandardGA linePoints smallParams) (constDraws (1 / 10)) = Inr (st1, rs1)"
    and s: "st1 = lineGA1"
    unfolding newStandardGA_line by (auto split: sum.splits)
  have "rs1 = constDraws (1 / 10)"
    using StandardGA_initialize_spec[OF e] by simp
  then show ?thesis using e s by simp
qed

lemma ABCTSP_initialize_line:
  "ABCTSP_initialize (newABCTSP linePoints colonyParams) colonyDraws
     = Inr (lineColony0, drop_rng 6 colonyDraws)"
proof -
  have "(case ABCTSP_initialize
           \<lparr>abc_cities = linePoints, abc_params = colonyParams, abc_distanceMatrix = lineMatrix,
            abc_foodSources = [], abc_trials = [], abc_currentGeneration = 0,
            abc_limit = 8, abc_stats = []\<rparr>
           colonyDraws of
          Inr (st1, rs1) \<Rightarrow> st1 = lineColony0
        | _ \<Rightarrow> False)"
    by code_simp
  then obtain st1 rs1 where
    e: "ABCTSP_initialize (newABCTSP linePoints colonyParams) colonyDraws = Inr (st1, rs1)"
    and s: "st1 = lineColony0"
    unfolding newABCTSP_line by (auto split: sum.splits)
  have "rs1 = drop_rng 6 colonyDraws"
    using ABCTSP_initialize_spec[OF e]
    by (simp add: newABCTSP_def colonyParams_def DEFAULT_PARAMS_def linePoints_def)
  then show ?thesis using e s by simp
qed

lemma StandardGA_runGeneration_line1:
  "(case StandardGA_runGeneration lineGA1 0 (constDraws (1 / 10)) of
      Some (Inr (st2, pop, rs2)) \<Rightarrow>
        sga_currentGeneration st2 = 1 \<and> generation pop = 1 \<and> populationSize (sga_params st2) = 2
    | _ \<Rightarrow> False)"
  by code_simp

lemma ABCTSP_generations_line:
  "(case ABCTSP_generations 2 lineColony0 (\<lambda>i. 0) (drop_rng 6 colonyDraws) of
      Some (Inr (st2, rs2)) \<Rightarrow>
        abc_currentGeneration st2 = 2 \<and> populationSize (abc_params st2) = 4 \<and>
        abc_foodSources st2 = [\<lparr>genes = [0, 1, 3, 2], fitness = 6, distance = 6\<rparr>,
                               \<lparr>genes = [0, 3, 1, 2], fitness = 8, distance = 8\<rparr>] \<and>
        abc_trials st2 = [3, 4]
    | _ \<Rightarrow> False)"
  by code_simp

text \<open>
  Claim C5. \<open>initialize()\<close> of GA-JGHO builds a population of \<open>populationSize\<close> tours and sets
  the generation counter to \<open>0\<close>. \<open>initialize()\<close> of the standard genetic algorithm and of
  the bee colony builds the population but does not reset the counter: whenever it
  returns, the counter and the \<open>generation\<close> of the next snapshot are what they were before the call,
  and it does return for a population of at least one member (a colony of at least one
  source). So after \<open>n\<close> generations a second \<open>initialize()\<close> leaves the counter at \<open>n\<close>.
\<close>

theorem initialize_keeps_counter:
  "jg_generation (fst (GAJGHO_initialize gst now rs)) = 0 \<and>
   length (jg_currentPopulation (fst (GAJGHO_initialize gst now rs)))
     = populationSize (jg_params gst) \<and>
   (\<forall>st' rs'. StandardGA_initialize sst rs = Inr (st', rs') \<longrightarrow>
      length (sga_population st') = populationSize (sga_params sst) \<and>
      sga_currentGeneration st' = sga_currentGeneration sst \<and>
      generation (snd (StandardGA_getPopulation st')) = sga_currentGeneration sst) \<and>
   (0 < populationSize (sga_params sst) \<longrightarrow>
      (\<exists>st' rs'. StandardGA_initialize sst rs = Inr (st', rs'))) \<and>
   (\<forall>st' rs'. ABCTSP_initialize ast rs = Inr (st', rs') \<longrightarrow>
      length (abc_foodSources st') = populationSize (abc_params ast) div 2 \<and>
      abc_currentGeneration st' = abc_currentGeneration ast \<and>
      generation (snd (ABCTSP_getPopulation st')) = abc_currentGeneration ast) \<and>
   (2 \<le> populationSize (abc_params ast) \<longrightarrow>
      (\<exists>st' rs'. ABCTSP_initialize ast rs = Inr (st', rs')))"
proof (intro conjI allI impI)
  show "jg_generation (fst (GAJGHO_initialize gst now rs)) = 0"
    by (rule GAJGHO_initialize_generation)
next
  show "length (jg_currentPopulation (fst (GAJGHO_initialize gst now rs)))
     = populationSize (jg_params gst)"
    by (rule GAJGHO_initialize_length)
next
  fix st' rs' assume a: "StandardGA_initialize sst rs = Inr (st', rs')"
  show "length (sga_population st') = populationSize (sga_params sst)"
    using StandardGA_initialize_spec[OF a] by simp
  show "sga_currentGeneration st' = sga_currentGeneration sst"
    using StandardGA_initialize_spec[OF a] by simp
  then show "generation (snd (StandardGA_getPopulation st')) = sga_currentGeneration sst"
    by (simp add: StandardGA_getPopulation_def Let_def)
next
  assume "0 < populationSize (sga_params sst)"
  then show "\<exists>st' rs'. StandardGA_initialize sst rs = Inr (st', rs')"
    by (rule StandardGA_initialize_returns)
next
  fix st' rs' assume a: "ABCTSP_initialize ast rs = Inr (st', rs')"
  show "length (abc_foodSources st') = populationSize (abc_params ast) div 2"
    using ABCTSP_initialize_spec[OF a] by simp
  show "abc_currentGeneration st' = abc_currentGeneration ast"
    using ABCTSP_initialize_spec[OF a] by simp
  then show "generation (snd (ABCTSP_getPopulation st')) = abc_currentGeneration ast"
    by (simp add: ABCTSP_getPopulation_def Let_def)
next
  assume "2 \<le> populationSize (abc_params ast)"
  then show "\<exists>st' rs'. ABCTSP_initialize ast rs = Inr (st', rs')"
    by (rule ABCTSP_initialize_returns)
qed

theorem initialize_keeps_counter_witness:
  "(\<exists>st2 pop rs2 st3 rs3.
      StandardGA_initialize (newStandardGA linePoints smallParams) (constDraws (1 / 10))
        = Inr (lineGA1, constDraws (1 / 10)) \<and>
      sga_currentGeneration lineGA1 = 0 \<and>
      StandardGA_runGeneration lineGA1 0 (constDraws (1 / 10)) = Some (Inr (st2, pop, rs2)) \<and>
      sga_currentGeneration st2 = 1 \<and>
      StandardGA_initialize st2 rs2 = Inr (st3, rs3) \<and>
      sga_currentGeneration st3 = 1 \<and>
      generation (snd (StandardGA_getPopulation st3)) = 1) \<and>
   (\<exists>st2 rs2 st3 rs3.
      ABCTSP_initialize (newABCTSP linePoints colonyParams) colonyDraws
        = Inr (lineColony0, drop_rng 6 colonyDraws) \<and>
      abc_currentGeneration lineColony0 = 0 \<and>
      ABCTSP_generations 2 lineColony0 (\<lambda>i. 0) (drop_rng 6 colonyDraws) = Some (Inr (st2, rs2)) \<and>
      abc_currentGeneration st2 = 2 \<and>
      ABCTSP_initialize st2 rs2 = Inr (st3, rs3) \<and>
      abc_currentGeneration st3 = 2 \<and>
      generation (snd (ABCTSP_getPopulation st3)) = 2)"
proof -
  obtain s2 p2 r2 where
    s: "StandardGA_runGeneration lineGA1 0 (constDraws (1 / 10)) = Some (Inr (s2, p2, r2))"
    and sg: "sga_currentGeneration s2 = 1" and sp: "populationSize (sga_params s2) = 2"
    using StandardGA_runGeneration_line1 by (auto split: option.splits sum.splits)
  obtain a2 t2 where
    a: "ABCTSP_generations 2 lineColony0 (\<lambda>i. 0) (drop_rng 6 colonyDraws) = Some (Inr (a2, t2))"
    and ag: "abc_currentGeneration a2 = 2" and ap: "populationSize (abc_params a2) = 4"
    using ABCTSP_generations_line by (auto split: option.splits sum.splits)
  note T = initialize_keeps_counter[of triangleState 0 r2 s2 a2]
  note T' = initialize_keeps_counter[of triangleState 0 t2 s2 a2]
  obtain s3 r3 where s3: "StandardGA_initialize s2 r2 = Inr (s3, r3)"
    using T sp by auto
  then have s3g: "sga_currentGeneration s3 = 1 \<and> generation (snd (StandardGA_getPopulation s3)) = 1"
    using T sg by auto
  obtain a3 t3 where a3: "ABCTSP_initialize a2 t2 = Inr (a3, t3)"
    using T' ap by auto
  then have a3g: "abc_currentGeneration a3 = 2 \<and> generation (snd (ABCTSP_getPopulation a3)) = 2"
    using T' ag by auto
  have z: "sga_currentGeneration lineGA1 = 0" "abc_currentGeneration lineColony0 = 0"
    by (simp_all add: lineGA1_def lineColony0_def)
  show ?thesis
    using StandardGA_initialize_line ABCTSP_initialize_line s sg s3 s3g a ag a3 a3g z by blast
qed

subsection \<open>The number of food sources of the bee colony\<close>

lemma greedyStep_length:
  "greedyStep dm i c = Inr c' \<Longrightarrow>
   length (fst c') = length (fst c) \<and> length (fst (snd c')) = length (fst (snd c))"
  by (auto simp: greedyStep_def split: prod.splits sum.splits if_splits)

lemma employedLoop_length:
  "employedLoop dm is c = Inr c' \<Longrightarrow>
   length (fst c') = length (fst c) \<and> length (fst (snd c')) = length (fst (snd c))"
proof (induction "is" arbitrary: c)
  case Nil
  then show ?case by simp
next
  case (Cons i rest)
  then obtain c1 where g: "greedyStep dm i c = Inr c1" and l: "employedLoop dm rest c1 = Inr c'"
    by (auto split: sum.splits)
  show ?case using Cons.IH[OF l] greedyStep_length[OF g] by simp
qed

lemma employedBeePhase_length:
  "employedBeePhase dm c = Inr c' \<Longrightarrow>
   length (fst c') = length (fst c) \<and> length (fst (snd c')) = length (fst (snd c))"
  unfolding employedBeePhase_def by (rule employedLoop_length)

lemma onlookerLoop_length:
  assumes "onlookerLoop dm probabilities t i c = Some (Inr c')"
  shows "length (fst c') = length (fst c) \<and> length (fst (snd c')) = length (fst (snd c))"
proof (rule onlookerLoop.raw_induct[where
      P = "\<lambda>dm probabilities t i c r. \<forall>c'. r = Inr c' \<longrightarrow>
             length (fst c') = length (fst c) \<and> length (fst (snd c')) = length (fst (snd c))",
      OF _ assms, rule_format], goal_cases)
  case (1 loop dm probabilities t i c r c')
  show ?case
  proof (cases "t < length (fst c)")
    case False
    then show ?thesis using 1(2,3) by simp
  next
    case t: True
    show ?thesis
    proof (cases "(snd (snd c)) 0 < probabilities ! i")
      case True
      then obtain c1 where g: "greedyStep dm i (fst c, fst (snd c), drop_rng 1 (snd (snd c))) = Inr c1"
        and l: "loop dm probabilities (t + 1) ((i + 1) mod length (fst c1)) c1 = Some r"
        using 1(2,3) t by (auto split: sum.splits)
      show ?thesis using 1(1)[OF l, rule_format, OF 1(3)] greedyStep_length[OF g] by simp
    next
      case False
      then have l: "loop dm probabilities t ((i + 1) mod length (fst c))
                (fst c, fst (snd c), drop_rng 1 (snd (snd c))) = Some r"
        using 1(2) t by simp
      show ?thesis using 1(1)[OF l, rule_format, OF 1(3)] by simp
    qed
  qed
qed simp

lemma onlookerBeePhase_length:
  "onlookerBeePhase dm c = Some (Inr c') \<Longrightarrow>
   length (fst c') = length (fst c) \<and> length (fst (snd c')) = length (fst (snd c))"
  unfolding onlookerBeePhase_def by (rule onlookerLoop_length)

lemma scoutLoop_length:
  "length (fst (scoutLoop n dm limit is c)) = length (fst c) \<and>
   length (fst (snd (scoutLoop n dm limit is c))) = length (fst (snd c))"
  by (induction "is" arbitrary: c) (auto simp: split_beta Let_def)

lemma scoutBeePhase_length:
  "length (fst (scoutBeePhase n dm limit c)) = length (fst c) \<and>
   length (fst (snd (scoutBeePhase n dm limit c))) = length (fst (snd c))"
  unfolding scoutBeePhase_def by (rule scoutLoop_length)

lemma ABCTSP_updateStats_spec:
  "ABCTSP_updateStats st elapsed = Inr st' \<Longrightarrow>
   abc_foodSources st' = sortByDistance (abc_foodSources st) \<and>
   abc_trials st' = abc_trials st \<and> abc_params st' = abc_params st \<and>
   abc_currentGeneration st' = abc_currentGeneration st"
  by (auto simp: ABCTSP_updateStats_def Let_def split: sum.splits)

lemma ABCTSP_runGeneration_length:
  assumes "ABCTSP_runGeneration st elapsed rs = Some (Inr (st', pop, rs'))"
  shows "length (abc_foodSources st') = length (abc_foodSources st) \<and>
         length (chromosomes pop) = length (abc_foodSources st) \<and>
         abc_params st' = abc_params st \<and>
         abc_currentGeneration st' = abc_currentGeneration st + 1"
proof -
  let ?dm = "abc_distanceMatrix st"
  obtain c1 where e: "employedBeePhase ?dm (abc_foodSources st, abc_trials st, rs) = Inr c1"
    using assms by (auto simp: ABCTSP_runGeneration_def Let_def split: sum.splits)
  obtain c2 where o: "onlookerBeePhase ?dm c1 = Some (Inr c2)"
    using assms e by (auto simp: ABCTSP_runGeneration_def Let_def split: sum.splits option.splits)
  define c3 where "c3 = scoutBeePhase (length (abc_cities st)) ?dm (abc_limit st) c2"
  obtain st3 where u: "ABCTSP_updateStats
        (st\<lparr>abc_foodSources := fst c3, abc_trials := fst (snd c3),
             abc_currentGeneration := abc_currentGeneration st + 1\<rparr>) elapsed = Inr st3"
    and r: "ABCTSP_getPopulation st3 = (st', pop)"
    using assms e o
    by (auto simp: ABCTSP_runGeneration_def Let_def c3_def split_beta split: sum.splits)
  have l3: "length (fst c3) = length (abc_foodSources st)"
    using employedBeePhase_length[OF e] onlookerBeePhase_length[OF o]
      scoutBeePhase_length[of "length (abc_cities st)" ?dm "abc_limit st" c2]
    by (simp add: c3_def)
  note U = ABCTSP_updateStats_spec[OF u]
  have "st' = st3\<lparr>abc_foodSources := sortByDistance (abc_foodSources st3)\<rparr>"
    and "chromosomes pop = sortByDistance (abc_foodSources st3)"
    using r by (auto simp: ABCTSP_getPopulation_def Let_def)
  then show ?thesis using U l3 by simp
qed

lemma ABCTSP_generations_length:
  "ABCTSP_generations k st elapsed rs = Some (Inr (st', rs')) \<Longrightarrow>
   length (abc_foodSources st') = length (abc_foodSources st) \<and> abc_params st' = abc_params st"
proof (induction k arbitrary: st elapsed rs)
  case 0
  then show ?case by simp
next
  case (Suc k)
  then obtain st1 pop rs1 where
    r: "ABCTSP_runGeneration st (elapsed 0) rs = Some (Inr (st1, pop, rs1))"
    and g: "ABCTSP_generations k st1 (\<lambda>i. elapsed (Suc i)) rs1 = Some (Inr (st', rs'))"
    by (auto split: option.splits sum.splits)
  show ?case using Suc.IH[OF g] ABCTSP_runGeneration_length[OF r] by simp
qed

lemma improvedInPlace_refl: "improvedInPlace xs xs"
  by (simp add: improvedInPlace_def)

lemma improvedInPlace_trans:
  "improvedInPlace xs ys \<Longrightarrow> improvedInPlace ys zs \<Longrightarrow> improvedInPlace xs zs"
  unfolding improvedInPlace_def by (metis order_less_trans)

lemma greedyStep_inPlace:
  assumes gs: "greedyStep dm i c = Inr c'"
  shows "improvedInPlace (fst c) (fst c')"
proof -
  obtain sources trials rs where c: "c = (sources, trials, rs)" by (cases c) auto
  obtain n rs1 where g: "generateNeighborSolution dm (sources ! i) rs = Inr (n, rs1)"
    using gs unfolding greedyStep_def c by (cases "generateNeighborSolution dm (sources ! i) rs") auto
  show ?thesis
  proof (cases "distance n < distance (sources ! i)")
    case True
    then have "fst c' = sources[i := n]"
      using gs g by (auto simp: greedyStep_def c)
    moreover have "sources[i := n] ! k = sources ! k \<or>
        distance (sources[i := n] ! k) < distance (sources ! k)" if "k < length sources" for k
      using that True by (cases "k = i") simp_all
    ultimately show ?thesis by (simp add: improvedInPlace_def c)
  next
    case False
    then have "fst c' = sources"
      using gs g by (auto simp: greedyStep_def c)
    then show ?thesis by (simp add: improvedInPlace_def c)
  qed
qed

lemma employedLoop_inPlace:
  "employedLoop dm is c = Inr c' \<Longrightarrow> improvedInPlace (fst c) (fst c')"
proof (induction "is" arbitrary: c)
  case Nil
  then show ?case by (simp add: improvedInPlace_refl)
next
  case (Cons i rest)
  then obtain c1 where g: "greedyStep dm i c = Inr c1" and l: "employedLoop dm rest c1 = Inr c'"
    by (auto split: sum.splits)
  show ?case using improvedInPlace_trans[OF greedyStep_inPlace[OF g] Cons.IH[OF l]] .
qed

lemma onlookerLoop_inPlace:
  assumes "onlookerLoop dm probabilities t i c = Some (Inr c')"
  shows "improvedInPlace (fst c) (fst c')"
proof (rule onlookerLoop.raw_induct[where
      P = "\<lambda>dm probabilities t i c r. \<forall>c'. r = Inr c' \<longrightarrow> improvedInPlace (fst c) (fst c')",
      OF _ assms, rule_format], goal_cases)
  case (1 loop dm probabilities t i c r c')
  show ?case
  proof (cases "t < length (fst c)")
    case False
    then show ?thesis using 1(2,3) by (simp add: improvedInPlace_refl)
  next
    case t: True
    show ?thesis
    proof (cases "(snd (snd c)) 0 < probabilities ! i")
      case True
      then obtain c1 where g: "greedyStep dm i (fst c, fst (snd c), drop_rng 1 (snd (snd c))) = Inr c1"
        and l: "loop dm probabilities (t + 1) ((i + 1) mod length (fst c1)) c1 = Some r"
        using 1(2,3) t by (auto split: sum.splits)
      show ?thesis
        using improvedInPlace_trans[OF greedyStep_inPlace[OF g] 1(1)[OF l, rule_format, OF 1(3)]]
        by simp
    next
      case False
      then have l: "loop dm probabilities t ((i + 1) mod length (fst c))
                (fst c, fst (snd c), drop_rng 1 (snd (snd c))) = Some r"
        using 1(2) t by simp
      show ?thesis using 1(1)[OF l, rule_format, OF 1(3)] by simp
    qed
  qed
qed simp

lemma scoutLoop_inPlace:
  "k < length (fst c) \<Longrightarrow>
   fst (scoutLoop n dm limit is c) ! k = fst c ! k \<or> limit \<le> fst (snd c) ! k"
proof (induction "is" arbitrary: c)
  case Nil
  then show ?case by simp
next
  case (Cons i rest)
  obtain sources trials rs where c: "c = (sources, trials, rs)" by (cases c) auto
  show ?case
  proof (cases "limit \<le> trials ! i")
    case False
    then show ?thesis using Cons.IH[of c] Cons.prems by (simp add: c)
  next
    case True
    obtain fresh rs' where f: "createRandomChromosome n dm rs = (fresh, rs')" by fastforce
    let ?c1 = "(sources[i := fresh], trials[i := 0], rs')"
    have e: "scoutLoop n dm limit (i # rest) c = scoutLoop n dm limit rest ?c1"
      using True f by (simp add: c)
    have "fst (scoutLoop n dm limit rest ?c1) ! k = fst ?c1 ! k \<or> limit \<le> fst (snd ?c1) ! k"
      using Cons.IH[of ?c1] Cons.prems by (simp add: c)
    then show ?thesis
      unfolding e using True by (cases "k = i") (simp_all add: c)
  qed
qed

lemma scoutBeePhase_inPlace:
  "k < length (fst c) \<Longrightarrow>
   fst (scoutBeePhase n dm limit c) ! k = fst c ! k \<or> limit \<le> fst (snd c) ! k"
  unfolding scoutBeePhase_def by (rule scoutLoop_inPlace)

lemma employedBeePhase_inPlace:
  "employedBeePhase dm c = Inr c' \<Longrightarrow> improvedInPlace (fst c) (fst c')"
  unfolding employedBeePhase_def by (rule employedLoop_inPlace)

lemma onlookerBeePhase_inPlace:
  "onlookerBeePhase dm c = Some (Inr c') \<Longrightarrow> improvedInPlace (fst c) (fst c')"
  unfolding onlookerBeePhase_def by (rule onlookerLoop_inPlace)

lemma ABCTSP_seed_length:
  "length (abc_foodSources (fst (ABCTSP_seed st rs))) = populationSize (abc_params st) div 2 \<and>
   length (abc_trials (fst (ABCTSP_seed st rs))) = populationSize (abc_params st) div 2"
  by (simp add: ABCTSP_seed_def Let_def split_beta arrayFrom_length)

lemma ABCTSP_getPopulation_length:
  "length (chromosomes (snd (ABCTSP_getPopulation st))) = length (abc_foodSources st)"
  by (simp add: ABCTSP_getPopulation_def Let_def)

text \<open>
  Claim C9. The bee colony keeps \<open>floor(populationSize / 2)\<close> food sources. \<open>initialize()\<close>
  creates that many sources and trial counters, fewer than \<open>populationSize\<close> whenever it
  returns. The employed, the onlooker and the scout
  phase return as many sources as they receive: the employed and the onlooker phase leave
  at each position the source that was there or a strictly shorter one, and the scout
  phase changes only positions whose trial counter has reached the limit. So after \<open>initialize()\<close> and any number of
  generations the colony has \<open>floor(populationSize / 2)\<close> sources, and the snapshot of
  \<open>getPopulation()\<close> and of every \<open>runGeneration()\<close> that returns has that many members.
\<close>

theorem colony_size:
  "length (abc_foodSources (fst (ABCTSP_seed st rs))) = populationSize (abc_params st) div 2 \<and>
   (\<forall>st0 rs0. ABCTSP_initialize st rs = Inr (st0, rs0) \<longrightarrow>
      length (abc_foodSources st0) = populationSize (abc_params st) div 2 \<and>
      length (abc_foodSources st0) < populationSize (abc_params st) \<and>
      length (abc_trials st0) = populationSize (abc_params st) div 2 \<and>
      length (chromosomes (snd (ABCTSP_getPopulation st0))) = populationSize (abc_params st) div 2 \<and>
      (\<forall>k st1 rs1. ABCTSP_generations k st0 elapsed rs0 = Some (Inr (st1, rs1)) \<longrightarrow>
         length (abc_foodSources st1) = populationSize (abc_params st) div 2 \<and>
         length (chromosomes (snd (ABCTSP_getPopulation st1))) = populationSize (abc_params st) div 2 \<and>
         (\<forall>e st2 pop rs2. ABCTSP_runGeneration st1 e rs1 = Some (Inr (st2, pop, rs2)) \<longrightarrow>
            length (chromosomes pop) = populationSize (abc_params st) div 2 \<and>
            length (abc_foodSources st2) = populationSize (abc_params st) div 2))) \<and>
   (\<forall>c'. employedBeePhase dm c = Inr c' \<longrightarrow>
      length (fst c') = length (fst c) \<and> improvedInPlace (fst c) (fst c')) \<and>
   (\<forall>c'. onlookerBeePhase dm c = Some (Inr c') \<longrightarrow>
      length (fst c') = length (fst c) \<and> improvedInPlace (fst c) (fst c')) \<and>
   length (fst (scoutBeePhase n dm limit c)) = length (fst c) \<and>
   (\<forall>k<length (fst c).
      fst (scoutBeePhase n dm limit c) ! k = fst c ! k \<or> limit \<le> fst (snd c) ! k)"
proof (intro conjI allI impI)
  show "length (abc_foodSources (fst (ABCTSP_seed st rs))) = populationSize (abc_params st) div 2"
    using ABCTSP_seed_length by simp
next
  fix st0 rs0 assume i: "ABCTSP_initialize st rs = Inr (st0, rs0)"
  note I = ABCTSP_initialize_spec[OF i]
  show l0: "length (abc_foodSources st0) = populationSize (abc_params st) div 2" using I by simp
  have "0 < length (abc_foodSources st0)" using ABCTSP_initialize_nonempty[OF i] by simp
  then show "length (abc_foodSources st0) < populationSize (abc_params st)" using l0 by simp
  show "length (abc_trials st0) = populationSize (abc_params st) div 2" using I by simp
  show "length (chromosomes (snd (ABCTSP_getPopulation st0))) = populationSize (abc_params st) div 2"
    using l0 by (simp add: ABCTSP_getPopulation_length)
  fix k st1 rs1 assume g: "ABCTSP_generations k st0 elapsed rs0 = Some (Inr (st1, rs1))"
  show l1: "length (abc_foodSources st1) = populationSize (abc_params st) div 2"
    using ABCTSP_generations_length[OF g] l0 by simp
  show "length (chromosomes (snd (ABCTSP_getPopulation st1))) = populationSize (abc_params st) div 2"
    using l1 by (simp add: ABCTSP_getPopulation_length)
  fix e st2 pop rs2 assume r: "ABCTSP_runGeneration st1 e rs1 = Some (Inr (st2, pop, rs2))"
  show "length (chromosomes pop) = populationSize (abc_params st) div 2"
    using ABCTSP_runGeneration_length[OF r] l1 by simp
  show "length (abc_foodSources st2) = populationSize (abc_params st) div 2"
    using ABCTSP_runGeneration_length[OF r] l1 by simp
next
  fix c' assume e: "employedBeePhase dm c = Inr c'"
  show "length (fst c') = length (fst c)" using employedBeePhase_length[OF e] by blast
  show "improvedInPlace (fst c) (fst c')" using e by (rule employedBeePhase_inPlace)
next
  fix c' assume o: "onlookerBeePhase dm c = Some (Inr c')"
  show "length (fst c') = length (fst c)" using onlookerBeePhase_length[OF o] by blast
  show "improvedInPlace (fst c) (fst c')" using o by (rule onlookerBeePhase_inPlace)
next
  show "length (fst (scoutBeePhase n dm limit c)) = length (fst c)"
    using scoutBeePhase_length by blast
next
  fix k assume "k < length (fst c)"
  then show "fst (scoutBeePhase n dm limit c) ! k = fst c ! k \<or> limit \<le> fst (snd c) ! k"
    by (rule scoutBeePhase_inPlace)
qed

lemma colony_phases_line:
  "(case employedBeePhase lineMatrix (abc_foodSources lineColony0, [0, 0], drop_rng 6 colonyDraws) of
      Inr c1 \<Rightarrow>
        fst c1 = [\<lparr>genes = [0, 1, 3, 2], fitness = 6, distance = 6\<rparr>,
                  \<lparr>genes = [0, 3, 1, 2], fitness = 8, distance = 8\<rparr>] \<and>
        fst (snd c1) = [0, 1] \<and>
        (case onlookerBeePhase lineMatrix c1 of
           Some (Inr c2) \<Rightarrow> fst c2 = fst c1 \<and> fst (snd c2) = [1, 2]
         | _ \<Rightarrow> False)
    | _ \<Rightarrow> False)"
  by code_simp

theorem colony_size_witness:
  "populationSize (abc_params (newABCTSP linePoints colonyParams)) = 4 \<and>
   ABCTSP_initialize (newABCTSP linePoints colonyParams) colonyDraws
     = Inr (lineColony0, drop_rng 6 colonyDraws) \<and>
   length (abc_foodSources lineColony0) = 2 \<and>
   (\<exists>st1 rs1 st2 pop rs2.
      ABCTSP_generations 1 lineColony0 (\<lambda>i. 0) (drop_rng 6 colonyDraws) = Some (Inr (st1, rs1)) \<and>
      length (abc_foodSources st1) = 2 \<and>
      ABCTSP_runGeneration st1 0 rs1 = Some (Inr (st2, pop, rs2)) \<and>
      length (chromosomes pop) = 2 \<and>
      abc_foodSources st2 = [\<lparr>genes = [0, 1, 3, 2], fitness = 6, distance = 6\<rparr>,
                             \<lparr>genes = [0, 3, 1, 2], fitness = 8, distance = 8\<rparr>]) \<and>
   (\<exists>c1 c2.
      employedBeePhase lineMatrix (abc_foodSources lineColony0, [0, 0], drop_rng 6 colonyDraws)
        = Inr c1 \<and>
      fst c1 = [\<lparr>genes = [0, 1, 3, 2], fitness = 6, distance = 6\<rparr>,
                \<lparr>genes = [0, 3, 1, 2], fitness = 8, distance = 8\<rparr>] \<and>
      improvedInPlace (abc_foodSources lineColony0) (fst c1) \<and>
      onlookerBeePhase lineMatrix c1 = Some (Inr c2) \<and> length (fst c2) = 2 \<and>
      fst (scoutBeePhase 4 lineMatrix 8 c2) ! 0 = fst c2 ! 0)"
proof -
  let ?st = "newABCTSP linePoints colonyParams"
  have P: "populationSize (abc_params ?st) = 4"
    by (simp add: newABCTSP_def colonyParams_def DEFAULT_PARAMS_def)
  obtain s2 r2 where
    g2: "ABCTSP_generations 2 lineColony0 (\<lambda>i. 0) (drop_rng 6 colonyDraws) = Some (Inr (s2, r2))"
    and f2: "abc_foodSources s2 = [\<lparr>genes = [0, 1, 3, 2], fitness = 6, distance = 6\<rparr>,
                                   \<lparr>genes = [0, 3, 1, 2], fitness = 8, distance = 8\<rparr>]"
    using ABCTSP_generations_line by (auto split: option.splits sum.splits)
  have two: "(2::nat) = Suc (Suc 0)" by simp
  obtain s1 p1 r1 p2 where
    run1: "ABCTSP_runGeneration lineColony0 0 (drop_rng 6 colonyDraws) = Some (Inr (s1, p1, r1))"
    and run2: "ABCTSP_runGeneration s1 0 r1 = Some (Inr (s2, p2, r2))"
    using g2 unfolding two by (auto split: option.splits sum.splits)
  have g1: "ABCTSP_generations 1 lineColony0 (\<lambda>i. 0) (drop_rng 6 colonyDraws) = Some (Inr (s1, r1))"
    using run1 by simp
  obtain c1 where
    e: "employedBeePhase lineMatrix (abc_foodSources lineColony0, [0, 0], drop_rng 6 colonyDraws) = Inr c1"
    and ef: "fst c1 = [\<lparr>genes = [0, 1, 3, 2], fitness = 6, distance = 6\<rparr>,
                       \<lparr>genes = [0, 3, 1, 2], fitness = 8, distance = 8\<rparr>]"
    and o: "(case onlookerBeePhase lineMatrix c1 of
           Some (Inr c2) \<Rightarrow> fst c2 = fst c1 \<and> fst (snd c2) = [1, 2]
         | _ \<Rightarrow> False)"
    using colony_phases_line
    by (cases "employedBeePhase lineMatrix
                 (abc_foodSources lineColony0, [0, 0], drop_rng 6 colonyDraws)") simp_all
  obtain c2 where ol: "onlookerBeePhase lineMatrix c1 = Some (Inr c2)"
    and ot: "fst (snd c2) = [1, 2]"
  proof (cases "onlookerBeePhase lineMatrix c1")
    case None
    then show ?thesis using o by simp
  next
    case (Some r)
    then show ?thesis using o that by (cases r) simp_all
  qed
  note T = colony_size[of ?st colonyDraws "\<lambda>i. 0" lineMatrix c1 4 8]
  note T2 = colony_size[of ?st colonyDraws "\<lambda>i. 0" lineMatrix
                 "(abc_foodSources lineColony0, [0, 0], drop_rng 6 colonyDraws)" 4 8]
  have h: "populationSize (abc_params ?st) div 2 = 2" using P by simp
  have l0: "length (abc_foodSources lineColony0) = 2"
    using T ABCTSP_initialize_line unfolding h by blast
  have l1: "length (abc_foodSources s1) = 2"
    using T ABCTSP_initialize_line g1 unfolding h by blast
  have lp: "length (chromosomes p2) = 2"
    using T ABCTSP_initialize_line g1 run2 unfolding h by blast
  have "length (fst c1) = length (abc_foodSources lineColony0) \<and>
        improvedInPlace (abc_foodSources lineColony0) (fst c1)"
    using T2 e by simp
  then have lc1: "length (fst c1) = 2"
    and ip: "improvedInPlace (abc_foodSources lineColony0) (fst c1)"
    using l0 by simp_all
  have lc2: "length (fst c2) = 2" using T ol lc1 by simp
  note T3 = colony_size[of ?st colonyDraws "\<lambda>i. 0" lineMatrix c2 4 8]
  have "fst (scoutBeePhase 4 lineMatrix 8 c2) ! 0 = fst c2 ! 0 \<or> 8 \<le> fst (snd c2) ! 0"
    using T3 lc2 by simp
  then have sc: "fst (scoutBeePhase 4 lineMatrix 8 c2) ! 0 = fst c2 ! 0"
    using ot by simp
  show ?thesis
    using P ABCTSP_initialize_line l0 g1 l1 run2 lp f2 e ef ip ol lc2 sc by blast
qed

end
